theory Spec2Isabelle
  imports Complex_Main
begin

section \<open>Scalars\<close>

text \<open>
  The template parameter \<open>Float\<close> of \<open>Traverser\<close>. The traversal never computes with
  scalars: it stores them, swaps them and compares them with \<open><\<close> and \<open>>\<close>. They are
  modelled as the reals extended by the two infinities, ordered as IEEE orders them
  (NaN is not modelled).
\<close>

datatype Float = NInf | Fin real | PInf

instantiation Float :: linorder
begin

fun less_eq_Float :: "Float \<Rightarrow> Float \<Rightarrow> bool" where
  "less_eq_Float NInf _ = True"
| "less_eq_Float _ PInf = True"
| "less_eq_Float (Fin x) (Fin y) = (x \<le> y)"
| "less_eq_Float _ _ = False"

definition less_Float :: "Float \<Rightarrow> Float \<Rightarrow> bool" where
  "less_Float a b = (a \<le> b \<and> \<not> b \<le> a)"

instance
proof
  fix x y z :: Float
  show "(x < y) = (x \<le> y \<and> \<not> y \<le> x)"
    by (simp add: less_Float_def)
  show "x \<le> x"
    by (cases x) simp_all
  show "x \<le> y \<Longrightarrow> y \<le> z \<Longrightarrow> x \<le> z"
    by (cases x; cases y; cases z) simp_all
  show "x \<le> y \<Longrightarrow> y \<le> x \<Longrightarrow> x = y"
    by (cases x; cases y) simp_all
  show "x \<le> y \<or> y \<le> x"
    by (cases x; cases y) auto
qed

end

section \<open>Data model\<close>

text \<open>
  Modelled from the spec: the \<open>Node\<close> type of the flattened tree is declared in
  \<open>FastBVH/BVH.h\<close>, which is not part of the sources at hand. The traversal reads the
  four fields \<open>bbox\<close>, \<open>start\<close>, \<open>nPrims\<close> and \<open>rightOffset\<close>; the spec describes them as a
  bounding box, an index into the primitive array, a primitive count and an offset in
  node-array positions. The three numbers are taken to be unsigned 32-bit integers, as
  the loop counter \<open>o\<close> and the index \<open>Traversal::i\<close> of the traversal are; the model
  holds them as natural numbers and reduces modulo \<open>2^32\<close> wherever the C++ adds to
  them.
\<close>

record 'b Node =
  bbox :: 'b
  start :: nat
  nPrims :: nat
  rightOffset :: nat

text \<open>
  Modelled from the spec: the \<open>Intersection\<close> type is declared outside the sources at
  hand. The spec gives it a hit distance \<open>t\<close>, whose value \<open>+infinity\<close> is the sentinel
  for "no hit", and a payload attached by the intersector. A default-constructed
  Intersection is invalid and carries no payload.
\<close>

record 'a Intersection =
  t :: Float
  object :: "'a option"

definition no_intersection :: "'a Intersection" where
  "no_intersection = \<lparr>t = PInf, object = None\<rparr>"

text \<open>
  Modelled from the spec: the conversion of an Intersection to \<open>bool\<close>, used by
  \<open>if (current)\<close>; an Intersection is valid unless its \<open>t\<close> is the sentinel.
\<close>

definition valid :: "'a Intersection \<Rightarrow> bool" where
  "valid x = (t x \<noteq> PInf)"

text \<open>
  Modelled from the spec: the merge rule \<open>closest(a, b)\<close> returns the operand with the
  smaller \<open>t\<close>; with the sentinel \<open>+infinity\<close> an invalid operand loses to any valid one
  and two invalid operands yield an invalid one. The comparison is \<open><\<close>.
\<close>

definition closest :: "'a Intersection \<Rightarrow> 'a Intersection \<Rightarrow> 'a Intersection" where
  "closest a b = (if t a < t b then a else b)"

text \<open>
  \<open>TraverserImpl::Traversal\<close>: the index \<open>i\<close> of the node to be traversed and the
  minimum hit time \<open>mint\<close> for this node.
\<close>

type_synonym Traversal = "nat \<times> Float"

text \<open>
  The C++ adds \<open>node.start + o\<close> and \<open>ni + node.rightOffset\<close> in unsigned 32-bit
  arithmetic, which wraps around.
\<close>

definition uint32_add :: "nat \<Rightarrow> nat \<Rightarrow> nat" where
  "uint32_add a b = (a + b) mod 2 ^ 32"

text \<open>
  What the C++ leaves undefined: a read outside the node or primitive array (an index
  beyond its end, a negative \<open>int\<close> index, an overflow of \<open>ni + 1\<close>), and a write
  beyond the 64 entries of \<open>todo\<close>.
\<close>

datatype error = OutOfBounds | StackOverflow

section \<open>The traversal\<close>

text \<open>
  The \<open>for\<close> loop over the primitives of a leaf. It either leaves the whole function
  with \<open>return current\<close> (\<open>Returned\<close>) or runs to its end with the updated
  \<open>intersection\<close> (\<open>Scanned\<close>).
\<close>

datatype 'a scan = Returned "'a Intersection" | Scanned "'a Intersection"

function leaf_loop ::
  "('p \<Rightarrow> 'r \<Rightarrow> 'a Intersection) \<Rightarrow> 'p list \<Rightarrow> 'r \<Rightarrow> bool \<Rightarrow> nat \<Rightarrow> nat \<Rightarrow> nat \<Rightarrow>
   'a Intersection \<Rightarrow> error + 'a scan" where
  "leaf_loop intersector build_prims ray occlusion node_start node_nPrims off intersection =
     (if off < node_nPrims then
        (if uint32_add node_start off < length build_prims then
           (let current = intersector (build_prims ! uint32_add node_start off) ray in
            if valid current then
              (if occlusion then Inr (Returned current)
               else leaf_loop intersector build_prims ray occlusion node_start node_nPrims
                      (off + 1) (closest intersection current))
            else leaf_loop intersector build_prims ray occlusion node_start node_nPrims
                   (off + 1) intersection)
         else Inl OutOfBounds)
      else Inr (Scanned intersection))"
  by pat_completeness auto
termination
  by (relation "measure (\<lambda>(_, _, _, _, _, n, off, _). n - off)") auto

text \<open>
  \<open>todo[++stackptr] = Traversal(...)\<close>. The list holds \<open>todo[0..stackptr]\<close>, the top
  of the stack first, so its length is \<open>stackptr + 1\<close>; the write is inside the array
  when the incremented \<open>stackptr\<close> is at most 63.
\<close>

definition push :: "Traversal \<Rightarrow> Traversal list \<Rightarrow> error + Traversal list" where
  "push e todo = (if length todo < 64 then Inr (e # todo) else Inl StackOverflow)"

text \<open>
  One pass through the body of the \<open>while\<close> loop, after the pop: \<open>entry\<close> is the top
  popped and \<open>todo\<close> the stack below it. \<open>bbox_intersect\<close> is the ray test of the
  bounding-box type (external): its hit flag and the two distances it stores through
  its pointer arguments, the entry distance first. The flag \<open>pruning\<close> is \<open>True\<close> in the
  source; \<open>False\<close> gives the variant of the spec's pruning-equivalence property, in
  which the test \<open>near > intersection.t\<close> is removed.

  \<open>Traversal::i\<close> is a \<open>uint32_t\<close> and \<open>ni\<close> an \<open>int\<close>: a stored index of \<open>2^31\<close> or
  more is a negative \<open>ni\<close>, and \<open>ni + 1\<close> must stay below \<open>2^31\<close>. The index of the right
  child is the unsigned sum \<open>ni + node.rightOffset\<close>, which wraps around; it is used as
  it is for the read of the child's box and stored as it is in the entry pushed.
\<close>

datatype 'a state = Done "'a Intersection" | Running "Traversal list" "'a Intersection"

definition visit ::
  "bool \<Rightarrow> ('b \<Rightarrow> 'r \<Rightarrow> bool \<times> Float \<times> Float) \<Rightarrow> ('p \<Rightarrow> 'r \<Rightarrow> 'a Intersection) \<Rightarrow>
   'b Node list \<Rightarrow> 'p list \<Rightarrow> 'r \<Rightarrow> bool \<Rightarrow> Traversal \<Rightarrow> Traversal list \<Rightarrow>
   'a Intersection \<Rightarrow> error + 'a state" where
  "visit pruning bbox_intersect intersector flatTree build_prims ray occlusion entry todo
     intersection =
     (let ni = fst entry; near = snd entry in
      if \<not> (ni < 2 ^ 31 \<and> ni < length flatTree) then Inl OutOfBounds
      else
        let node = flatTree ! ni in
        if pruning \<and> near > t intersection then Inr (Running todo intersection)
        else if rightOffset node = 0 then
          (case leaf_loop intersector build_prims ray occlusion (start node) (nPrims node)
                  0 intersection of
             Inl e \<Rightarrow> Inl e
           | Inr (Returned current) \<Rightarrow> Inr (Done current)
           | Inr (Scanned best) \<Rightarrow> Inr (Running todo best))
        else if \<not> (ni + 1 < 2 ^ 31 \<and> ni + 1 < length flatTree \<and>
                  uint32_add ni (rightOffset node) < length flatTree)
        then Inl OutOfBounds
        else
          (let (hitc0, bb0, bb1) = bbox_intersect (bbox (flatTree ! (ni + 1))) ray;
               (hitc1, bb2, bb3) =
                  bbox_intersect (bbox (flatTree ! uint32_add ni (rightOffset node))) ray
           in
           if hitc0 \<and> hitc1 then
             (let closer = ni + 1;
                  other = uint32_add ni (rightOffset node);
                  (bbhits, closer, other) =
                     (if bb2 < bb0 then ((bb2, bb3, bb0, bb1), other, closer)
                      else ((bb0, bb1, bb2, bb3), closer, other));
                  (bbhits0, bbhits1, bbhits2, bbhits3) = bbhits
              in case push (other, bbhits2) todo of
                   Inl e \<Rightarrow> Inl e
                 | Inr todo1 \<Rightarrow>
                     (case push (closer, bbhits0) todo1 of
                        Inl e \<Rightarrow> Inl e
                      | Inr todo2 \<Rightarrow> Inr (Running todo2 intersection)))
           else if hitc0 then
             (case push (ni + 1, bb0) todo of
                Inl e \<Rightarrow> Inl e
              | Inr todo1 \<Rightarrow> Inr (Running todo1 intersection))
           else if hitc1 then
             (case push (uint32_add ni (rightOffset node), bb2) todo of
                Inl e \<Rightarrow> Inl e
              | Inr todo1 \<Rightarrow> Inr (Running todo1 intersection))
           else Inr (Running todo intersection)))"

text \<open>
  The \<open>while\<close> loop. With indices that wrap around, a malformed node array can send the
  loop round a cycle, so the loop is a partial function: \<open>None\<close> is a run that never
  ends, \<open>Some\<close> holds the error that ends the run or the Intersection it returns.
\<close>

partial_function (option) traverse_loop ::
  "bool \<Rightarrow> ('b \<Rightarrow> 'r \<Rightarrow> bool \<times> Float \<times> Float) \<Rightarrow> ('p \<Rightarrow> 'r \<Rightarrow> 'a Intersection) \<Rightarrow>
   'b Node list \<Rightarrow> 'p list \<Rightarrow> 'r \<Rightarrow> bool \<Rightarrow> Traversal list \<Rightarrow>
   'a Intersection \<Rightarrow> (error + 'a Intersection) option" where
  "traverse_loop pruning bbox_intersect intersector flatTree build_prims ray occlusion todo
     intersection =
     (case todo of
        [] \<Rightarrow> Some (Inr intersection)
      | entry # todo' \<Rightarrow>
          (case visit pruning bbox_intersect intersector flatTree build_prims ray occlusion
                  entry todo' intersection of
             Inl e \<Rightarrow> Some (Inl e)
           | Inr (Done result) \<Rightarrow> Some (Inr result)
           | Inr (Running todo'' best) \<Rightarrow>
               traverse_loop pruning bbox_intersect intersector flatTree build_prims ray
                 occlusion todo'' best))"

text \<open>
  \<open>Traverser::traverse\<close>: the root node is pushed with the entry distance \<open>-9999999\<close>
  and the loop runs from a default-constructed \<open>intersection\<close>.
\<close>

definition traverse_with ::
  "bool \<Rightarrow> ('b \<Rightarrow> 'r \<Rightarrow> bool \<times> Float \<times> Float) \<Rightarrow> ('p \<Rightarrow> 'r \<Rightarrow> 'a Intersection) \<Rightarrow>
   'b Node list \<Rightarrow> 'p list \<Rightarrow> 'r \<Rightarrow> bool \<Rightarrow> (error + 'a Intersection) option" where
  "traverse_with pruning bbox_intersect intersector flatTree build_prims ray occlusion =
     traverse_loop pruning bbox_intersect intersector flatTree build_prims ray occlusion
       [(0, Fin (- 9999999))] no_intersection"

definition traverse ::
  "('b \<Rightarrow> 'r \<Rightarrow> bool \<times> Float \<times> Float) \<Rightarrow> ('p \<Rightarrow> 'r \<Rightarrow> 'a Intersection) \<Rightarrow>
   'b Node list \<Rightarrow> 'p list \<Rightarrow> 'r \<Rightarrow> bool \<Rightarrow> (error + 'a Intersection) option" where
  "traverse = traverse_with True"

text \<open>
  The variant of the spec's pruning-equivalence property: the same traversal with the
  test \<open>near > intersection.t\<close> removed.
\<close>

definition traverse_unpruned ::
  "('b \<Rightarrow> 'r \<Rightarrow> bool \<times> Float \<times> Float) \<Rightarrow> ('p \<Rightarrow> 'r \<Rightarrow> 'a Intersection) \<Rightarrow>
   'b Node list \<Rightarrow> 'p list \<Rightarrow> 'r \<Rightarrow> bool \<Rightarrow> (error + 'a Intersection) option" where
  "traverse_unpruned = traverse_with False"

section \<open>Well-formed hierarchies\<close>

text \<open>
  The binary tree that a node array flattens: a leaf owns the primitives
  \<open>start, ..., start + nPrims - 1\<close>, an internal node has exactly two children. Every
  node carries its bounding box.
\<close>

datatype 'b bvh = Leaf 'b nat nat | Inner 'b "'b bvh" "'b bvh"

fun box_of :: "'b bvh \<Rightarrow> 'b" where
  "box_of (Leaf b s c) = b"
| "box_of (Inner b l r) = b"

fun node_count :: "'b bvh \<Rightarrow> nat" where
  "node_count (Leaf b s c) = 1"
| "node_count (Inner b l r) = 1 + node_count l + node_count r"

text \<open>
  The depth of a tree: the number of edges of its longest root-to-leaf path.
\<close>

fun depth :: "'b bvh \<Rightarrow> nat" where
  "depth (Leaf b s c) = 0"
| "depth (Inner b l r) = 1 + max (depth l) (depth r)"

text \<open>
  The invariants of the flattened tree: the subtree \<open>tr\<close> is stored from index \<open>k\<close> on
  in depth-first pre-order. A leaf has \<open>rightOffset = 0\<close>; the left child of an
  internal node is the next slot and its right child follows the left subtree, at the
  nonzero offset \<open>rightOffset\<close>. Every node lies at an index that the \<open>int\<close> index
  \<open>ni\<close> of the C++ can hold.
\<close>

fun stored_at :: "'b Node list \<Rightarrow> nat \<Rightarrow> 'b bvh \<Rightarrow> bool" where
  "stored_at flatTree k (Leaf b s c) =
     (k < length flatTree \<and> k < 2 ^ 31 \<and>
      flatTree ! k = \<lparr>bbox = b, start = s, nPrims = c, rightOffset = 0\<rparr>)"
| "stored_at flatTree k (Inner b l r) =
     (k < length flatTree \<and> k < 2 ^ 31 \<and> bbox (flatTree ! k) = b \<and>
      rightOffset (flatTree ! k) = 1 + node_count l \<and>
      stored_at flatTree (k + 1) l \<and> stored_at flatTree (k + 1 + node_count l) r)"

text \<open>
  The indices into the primitive array that the leaves of a tree own.
\<close>

fun prim_indices :: "'b bvh \<Rightarrow> nat list" where
  "prim_indices (Leaf b s c) = [s..<s + c]"
| "prim_indices (Inner b l r) = prim_indices l @ prim_indices r"

text \<open>
  The traversal read along the tree, for the proofs: what the loop does from the pop of
  the entry of a subtree until the stack is back to what lay below that entry. Lemma
  \<open>loop_explore\<close> relates it to \<open>traverse_loop\<close>.
\<close>

fun explore ::
  "bool \<Rightarrow> ('b \<Rightarrow> 'r \<Rightarrow> bool \<times> Float \<times> Float) \<Rightarrow> ('p \<Rightarrow> 'r \<Rightarrow> 'a Intersection) \<Rightarrow>
   'p list \<Rightarrow> 'r \<Rightarrow> bool \<Rightarrow> 'b bvh \<Rightarrow> Float \<Rightarrow> 'a Intersection \<Rightarrow> error + 'a scan" where
  "explore pruning bbox_intersect intersector build_prims ray occlusion (Leaf b s c) near best =
     (if pruning \<and> near > t best then Inr (Scanned best)
      else leaf_loop intersector build_prims ray occlusion s c 0 best)"
| "explore pruning bbox_intersect intersector build_prims ray occlusion (Inner b l r) near best =
     (if pruning \<and> near > t best then Inr (Scanned best)
      else
        (let (hitc0, bb0, bb1) = bbox_intersect (box_of l) ray;
             (hitc1, bb2, bb3) = bbox_intersect (box_of r) ray
         in
         if hitc0 \<and> hitc1 then
           (if bb2 < bb0 then
              (case explore pruning bbox_intersect intersector build_prims ray occlusion r bb2 best of
                 Inl e \<Rightarrow> Inl e
               | Inr (Returned current) \<Rightarrow> Inr (Returned current)
               | Inr (Scanned best') \<Rightarrow>
                   explore pruning bbox_intersect intersector build_prims ray occlusion l bb0 best')
            else
              (case explore pruning bbox_intersect intersector build_prims ray occlusion l bb0 best of
                 Inl e \<Rightarrow> Inl e
               | Inr (Returned current) \<Rightarrow> Inr (Returned current)
               | Inr (Scanned best') \<Rightarrow>
                   explore pruning bbox_intersect intersector build_prims ray occlusion r bb2 best'))
         else if hitc0 then
           explore pruning bbox_intersect intersector build_prims ray occlusion l bb0 best
         else if hitc1 then
           explore pruning bbox_intersect intersector build_prims ray occlusion r bb2 best
         else Inr (Scanned best)))"

text \<open>
  The contract between the bounding boxes and the intersector, for one ray: a box
  encloses the primitives \<open>js\<close> when, for every hit that the intersector reports on one
  of them, the box test reports a hit that is entered no later than the primitive is
  hit. In a hierarchy every box encloses the primitives of its subtree.
\<close>

definition box_encloses ::
  "('b \<Rightarrow> 'r \<Rightarrow> bool \<times> Float \<times> Float) \<Rightarrow> ('p \<Rightarrow> 'r \<Rightarrow> 'a Intersection) \<Rightarrow> 'p list \<Rightarrow> 'r \<Rightarrow>
   'b \<Rightarrow> nat list \<Rightarrow> bool" where
  "box_encloses bbox_intersect intersector build_prims ray b js =
     (\<forall>j\<in>set js. valid (intersector (build_prims ! j) ray) \<longrightarrow>
        (case bbox_intersect b ray of
           (hit, near, far) \<Rightarrow> hit \<and> near \<le> t (intersector (build_prims ! j) ray)))"

fun encloses ::
  "('b \<Rightarrow> 'r \<Rightarrow> bool \<times> Float \<times> Float) \<Rightarrow> ('p \<Rightarrow> 'r \<Rightarrow> 'a Intersection) \<Rightarrow> 'p list \<Rightarrow> 'r \<Rightarrow>
   'b bvh \<Rightarrow> bool" where
  "encloses bbox_intersect intersector build_prims ray (Leaf b s c) =
     box_encloses bbox_intersect intersector build_prims ray b [s..<s + c]"
| "encloses bbox_intersect intersector build_prims ray (Inner b l r) =
     (box_encloses bbox_intersect intersector build_prims ray b (prim_indices l @ prim_indices r) \<and>
      encloses bbox_intersect intersector build_prims ray l \<and>
      encloses bbox_intersect intersector build_prims ray r)"

text \<open>
  Every leaf range lies inside the primitive array, at indices that the unsigned 32-bit
  sum \<open>node.start + o\<close> reaches without wrapping around.
\<close>

definition ranges_ok :: "'p list \<Rightarrow> 'b bvh \<Rightarrow> bool" where
  "ranges_ok build_prims tr =
     (\<forall>j\<in>set (prim_indices tr). j < length build_prims \<and> j < 2 ^ 32)"

text \<open>
  The brute-force scan of the spec's nearest-hit property, in the spec's words: the
  intersector is applied to every primitive of the primitive array and the results are
  folded with \<open>closest\<close>.
\<close>

definition brute_force :: "('p \<Rightarrow> 'r \<Rightarrow> 'a Intersection) \<Rightarrow> 'p list \<Rightarrow> 'r \<Rightarrow> 'a Intersection" where
  "brute_force intersector build_prims ray =
     foldl (\<lambda>best obj. closest best (intersector obj ray)) no_intersection build_prims"

text \<open>
  Auxiliary notions for the proofs: the hit distances that the intersector reports on
  the primitives of a tree, the Intersection that a leaf loop or a subtree ends with,
  the continuation of the loop after a subtree, and the least element of a set of
  distances together with a starting value.
\<close>

definition hit_ts :: "('p \<Rightarrow> 'r \<Rightarrow> 'a Intersection) \<Rightarrow> 'p list \<Rightarrow> 'r \<Rightarrow> 'b bvh \<Rightarrow> Float set" where
  "hit_ts intersector build_prims ray tr =
     (\<lambda>j. t (intersector (build_prims ! j) ray)) ` set (prim_indices tr)"

text \<open>
  The node array of a tree, in depth-first pre-order: a node, its left subtree, its right
  subtree.
\<close>

fun flatten :: "'b bvh \<Rightarrow> 'b Node list" where
  "flatten (Leaf b s c) = [\<lparr>bbox = b, start = s, nPrims = c, rightOffset = 0\<rparr>]"
| "flatten (Inner b l r) =
     \<lparr>bbox = b, start = 0, nPrims = 0, rightOffset = 1 + node_count l\<rparr> # flatten l @ flatten r"

fun scan_value :: "'a scan \<Rightarrow> 'a Intersection" where
  "scan_value (Returned current) = current"
| "scan_value (Scanned best) = best"

definition finish ::
  "error + 'a scan \<Rightarrow> ('a Intersection \<Rightarrow> (error + 'a Intersection) option) \<Rightarrow>
   (error + 'a Intersection) option" where
  "finish x f =
     (case x of
        Inl e \<Rightarrow> Some (Inl e)
      | Inr (Returned c) \<Rightarrow> Some (Inr c)
      | Inr (Scanned b) \<Rightarrow> f b)"

definition least_of :: "Float \<Rightarrow> Float \<Rightarrow> Float set \<Rightarrow> bool" where
  "least_of m a S = ((m = a \<or> m \<in> S) \<and> m \<le> a \<and> (\<forall>x\<in>S. m \<le> x))"

section \<open>A concrete scene\<close>

text \<open>
  A one-dimensional world for the concrete instances below: a bounding box is an interval
  \<open>(lo, hi)\<close>, a primitive is a point, a ray starts at \<open>origin\<close> and runs towards
  \<open>+infinity\<close>. The box test reports a hit when the interval is not behind the origin,
  with the distances to its two ends; the intersector reports the distance to a point
  that is not behind the origin.
\<close>

definition interval_intersect :: "real \<times> real \<Rightarrow> real \<Rightarrow> bool \<times> Float \<times> Float" where
  "interval_intersect b origin = (origin \<le> snd b, Fin (fst b - origin), Fin (snd b - origin))"

definition point_intersector :: "real \<Rightarrow> real \<Rightarrow> real Intersection" where
  "point_intersector p origin =
     (if origin \<le> p then \<lparr>t = Fin (p - origin), object = Some p\<rparr> else no_intersection)"

definition scene_prims :: "real list" where
  "scene_prims = [2, 5, 9]"

definition scene_tree :: "(real \<times> real) bvh" where
  "scene_tree = Inner (1, 10) (Leaf (1, 3) 0 1) (Leaf (4, 10) 1 2)"

definition scene_nodes :: "(real \<times> real) Node list" where
  "scene_nodes =
     [\<lparr>bbox = (1, 10), start = 0, nPrims = 0, rightOffset = 2\<rparr>,
      \<lparr>bbox = (1, 3), start = 0, nPrims = 1, rightOffset = 0\<rparr>,
      \<lparr>bbox = (4, 10), start = 1, nPrims = 2, rightOffset = 0\<rparr>]"

definition interval_entry_only :: "real \<times> real \<Rightarrow> real \<Rightarrow> bool \<times> Float \<times> Float" where
  "interval_entry_only b origin = (origin \<le> snd b, Fin (fst b - origin), PInf)"

definition nearby_point_intersector :: "real \<Rightarrow> real \<Rightarrow> real Intersection" where
  "nearby_point_intersector p origin =
     (if p \<le> 100 then point_intersector p origin else no_intersection)"

definition single_leaf_nodes :: "(real \<times> real) Node list" where
  "single_leaf_nodes = [\<lparr>bbox = (1, 3), start = 0, nPrims = 3, rightOffset = 0\<rparr>]"

definition gap_tree :: "(real \<times> real) bvh" where
  "gap_tree = Inner (1, 10) (Leaf (1, 1) 0 0) (Leaf (1, 10) 0 3)"

definition gap_nodes :: "(real \<times> real) Node list" where
  "gap_nodes =
     [\<lparr>bbox = (1, 10), start = 0, nPrims = 0, rightOffset = 2\<rparr>,
      \<lparr>bbox = (1, 1), start = 0, nPrims = 0, rightOffset = 0\<rparr>,
      \<lparr>bbox = (1, 10), start = 0, nPrims = 3, rightOffset = 0\<rparr>]"

text \<open>
  A degenerate hierarchy: a chain of \<open>n\<close> internal nodes, each with an empty leaf as
  right child, and a box test that reports every box hit at the same distance.
\<close>

fun chain :: "'b \<Rightarrow> nat \<Rightarrow> 'b bvh" where
  "chain b 0 = Leaf b 0 0"
| "chain b (Suc n) = Inner b (chain b n) (Leaf b 0 0)"

definition deep_tree :: "unit bvh" where
  "deep_tree = chain () 64"

definition deep_nodes :: "unit Node list" where
  "deep_nodes = flatten deep_tree"

definition always_hit :: "'b \<Rightarrow> 'r \<Rightarrow> bool \<times> Float \<times> Float" where
  "always_hit b ray = (True, Fin 0, Fin 1)"

definition never_hit :: "'p \<Rightarrow> 'r \<Rightarrow> 'a Intersection" where
  "never_hit obj ray = no_intersection"

text \<open>
  Further hierarchies beyond the stack capacity. In the first the box of a node is a
  flag that says whether the ray hits it: the root box is missed, every other box is
  hit, and the chain below the root is 63 levels deep. In the second a box is the
  distance at which the ray enters it and a primitive is the distance at which it is
  hit: the left child of the root is a leaf with a hit at distance 1, the right child a
  chain of 64 levels whose boxes are entered at distance 2.
\<close>

definition flag_intersect :: "bool \<Rightarrow> 'r \<Rightarrow> bool \<times> Float \<times> Float" where
  "flag_intersect b ray = (b, Fin 0, Fin 1)"

definition blind_root_tree :: "bool bvh" where
  "blind_root_tree = Inner False (chain True 63) (Leaf True 0 0)"

definition blind_root_nodes :: "bool Node list" where
  "blind_root_nodes = flatten blind_root_tree"

definition entry_intersect :: "real \<Rightarrow> 'r \<Rightarrow> bool \<times> Float \<times> Float" where
  "entry_intersect b ray = (True, Fin b, Fin (b + 1))"

definition distance_intersector :: "real \<Rightarrow> 'r \<Rightarrow> real Intersection" where
  "distance_intersector p ray = \<lparr>t = Fin p, object = Some p\<rparr>"

definition lop_tree :: "real bvh" where
  "lop_tree = Inner 0 (Leaf 0 0 1) (chain 2 64)"

definition lop_nodes :: "real Node list" where
  "lop_nodes = flatten lop_tree"

text \<open>
  A single leaf whose range leaves the (empty) primitive array.
\<close>

definition stray_leaf_nodes :: "unit Node list" where
  "stray_leaf_nodes = [\<lparr>bbox = (), start = 0, nPrims = 1, rightOffset = 0\<rparr>]"

text \<open>
  A malformed node array in which an offset wraps around: the right child of node 1 is
  \<open>1 + 4294967295 = 0\<close> in unsigned 32-bit arithmetic, the root. The root box is missed.
\<close>

definition wrap_nodes :: "bool Node list" where
  "wrap_nodes =
     [\<lparr>bbox = False, start = 0, nPrims = 0, rightOffset = 2\<rparr>,
      \<lparr>bbox = True, start = 0, nPrims = 0, rightOffset = 4294967295\<rparr>,
      \<lparr>bbox = True, start = 0, nPrims = 1, rightOffset = 0\<rparr>]"

section \<open>Properties of the model\<close>

declare leaf_loop.simps [simp del]

lemma uint32_add_small: "a + b < 2 ^ 32 \<Longrightarrow> uint32_add a b = a + b"
  by (simp add: uint32_add_def)

lemma traverse_loop_Nil [simp]:
  "traverse_loop pruning bi isect flatTree prims ray occ [] best = Some (Inr best)"
  by (subst traverse_loop.simps) simp

lemma traverse_loop_step:
  "traverse_loop pruning bi isect flatTree prims ray occ (entry # todo) best =
     (case visit pruning bi isect flatTree prims ray occ entry todo best of
        Inl e \<Rightarrow> Some (Inl e)
      | Inr (Done result) \<Rightarrow> Some (Inr result)
      | Inr (Running todo' best') \<Rightarrow>
          traverse_loop pruning bi isect flatTree prims ray occ todo' best')"
  by (subst traverse_loop.simps) simp

lemma stored_at_node:
  "stored_at flatTree k tr \<Longrightarrow>
   k < 2 ^ 31 \<and> k < length flatTree \<and> bbox (flatTree ! k) = box_of tr"
  by (cases tr) auto

lemma visit_pruned:
  "ni < 2 ^ 31 \<Longrightarrow> ni < length flatTree \<Longrightarrow> pruning \<and> near > t best \<Longrightarrow>
   visit pruning bi isect flatTree prims ray occ (ni, near) todo best = Inr (Running todo best)"
  by (simp add: visit_def)

lemma visit_leaf:
  "ni < 2 ^ 31 \<Longrightarrow> ni < length flatTree \<Longrightarrow> \<not> (pruning \<and> near > t best) \<Longrightarrow>
   rightOffset (flatTree ! ni) = 0 \<Longrightarrow>
   visit pruning bi isect flatTree prims ray occ (ni, near) todo best =
     (case leaf_loop isect prims ray occ (start (flatTree ! ni)) (nPrims (flatTree ! ni)) 0 best of
        Inl e \<Rightarrow> Inl e
      | Inr (Returned current) \<Rightarrow> Inr (Done current)
      | Inr (Scanned best') \<Rightarrow> Inr (Running todo best'))"
  by (auto simp: visit_def Let_def)

lemma visit_inner:
  assumes "ni < 2 ^ 31" "ni < length flatTree" "\<not> (pruning \<and> near > t best)"
    and "rightOffset (flatTree ! ni) = ro" "ro \<noteq> 0"
    and "ni + 1 < 2 ^ 31" "ni + 1 < length flatTree"
    and "uint32_add ni ro = rc" "rc < length flatTree"
    and "bi (bbox (flatTree ! (ni + 1))) ray = (h0, n0, f0)"
    and "bi (bbox (flatTree ! rc)) ray = (h1, n1, f1)"
  shows "visit pruning bi isect flatTree prims ray occ (ni, near) todo best =
     (if h0 \<and> h1 then
        (if length todo + 1 < 64 then
           Inr (Running (if n1 < n0 then [(rc, n1), (ni + 1, n0)] @ todo
                         else [(ni + 1, n0), (rc, n1)] @ todo) best)
         else Inl StackOverflow)
      else if h0 then
        (if length todo < 64 then Inr (Running ((ni + 1, n0) # todo) best) else Inl StackOverflow)
      else if h1 then
        (if length todo < 64 then Inr (Running ((rc, n1) # todo) best) else Inl StackOverflow)
      else Inr (Running todo best))"
  using assms by (auto simp: visit_def Let_def push_def)

lemma finish_bind:
  "finish (case x of Inl e \<Rightarrow> Inl e | Inr (Returned c) \<Rightarrow> Inr (Returned c) | Inr (Scanned b) \<Rightarrow> g b) f =
   finish x (\<lambda>b. finish (g b) f)"
  by (simp add: finish_def split: sum.splits scan.splits)

lemma loop_explore:
  "stored_at flatTree k tr \<Longrightarrow> length todo + depth tr < 64 \<Longrightarrow>
   traverse_loop pruning bi isect flatTree prims ray occ ((k, near) # todo) best =
   finish (explore pruning bi isect prims ray occ tr near best)
     (traverse_loop pruning bi isect flatTree prims ray occ todo)"
proof (induction tr arbitrary: k near todo best)
  case (Leaf b s c)
  then have k: "k < 2 ^ 31" "k < length flatTree" "rightOffset (flatTree ! k) = 0"
    "start (flatTree ! k) = s" "nPrims (flatTree ! k) = c"
    by auto
  show ?case
  proof (cases "pruning \<and> near > t best")
    case True
    with k show ?thesis
      by (simp add: traverse_loop_step visit_pruned finish_def)
  next
    case False
    then have "visit pruning bi isect flatTree prims ray occ (k, near) todo best =
        (case leaf_loop isect prims ray occ s c 0 best of
           Inl e \<Rightarrow> Inl e
         | Inr (Returned current) \<Rightarrow> Inr (Done current)
         | Inr (Scanned best') \<Rightarrow> Inr (Running todo best'))"
      using visit_leaf [OF k(1,2) False k(3)] k(4,5) by simp
    moreover have "explore pruning bi isect prims ray occ (Leaf b s c) near best =
        leaf_loop isect prims ray occ s c 0 best"
      using False by auto
    ultimately show ?thesis
      by (simp add: traverse_loop_step finish_def split: sum.splits scan.splits)
  qed
next
  case (Inner b l r)
  define ro where "ro = 1 + node_count l"
  from Inner.prems have k: "k < 2 ^ 31" "k < length flatTree" "rightOffset (flatTree ! k) = ro"
    "ro \<noteq> 0"
    and sl: "stored_at flatTree (k + 1) l" and sr: "stored_at flatTree (k + ro) r"
    by (auto simp: ro_def add.assoc)
  note nl = stored_at_node [OF sl] and nr = stored_at_node [OF sr]
  from nr have rc: "uint32_add k ro = k + ro"
    by (intro uint32_add_small) simp
  from Inner.prems have len: "length todo + 1 < 64" "length todo < 64"
    and dl: "\<And>e. length (e # todo) + depth l < 64" and dr: "\<And>e. length (e # todo) + depth r < 64"
    and dl0: "length todo + depth l < 64" and dr0: "length todo + depth r < 64"
    by auto
  note IHl = Inner.IH(1) [OF sl] and IHr = Inner.IH(2) [OF sr]
  obtain h0 n0 f0 where c0: "bi (box_of l) ray = (h0, n0, f0)"
    by (cases "bi (box_of l) ray")
  obtain h1 n1 f1 where c1: "bi (box_of r) ray = (h1, n1, f1)"
    by (cases "bi (box_of r) ray")
  show ?case
  proof (cases "pruning \<and> near > t best")
    case True
    with k show ?thesis
      by (simp add: traverse_loop_step visit_pruned finish_def)
  next
    case False
    have v: "visit pruning bi isect flatTree prims ray occ (k, near) todo best =
       (if h0 \<and> h1 then
          Inr (Running (if n1 < n0 then [(k + ro, n1), (k + 1, n0)] @ todo
                        else [(k + 1, n0), (k + ro, n1)] @ todo) best)
        else if h0 then Inr (Running ((k + 1, n0) # todo) best)
        else if h1 then Inr (Running ((k + ro, n1) # todo) best)
        else Inr (Running todo best))"
      using visit_inner [where bi = bi and ray = ray and rc = "k + ro" and isect = isect
          and prims = prims and occ = occ and todo = todo, OF k(1,2) False k(3,4) _ _ rc]
        nl nr c0 c1 len by simp
    have e: "explore pruning bi isect prims ray occ (Inner b l r) near best =
       (if h0 \<and> h1 then
           (if n1 < n0 then
              (case explore pruning bi isect prims ray occ r n1 best of
                 Inl e \<Rightarrow> Inl e
               | Inr (Returned current) \<Rightarrow> Inr (Returned current)
               | Inr (Scanned best') \<Rightarrow> explore pruning bi isect prims ray occ l n0 best')
            else
              (case explore pruning bi isect prims ray occ l n0 best of
                 Inl e \<Rightarrow> Inl e
               | Inr (Returned current) \<Rightarrow> Inr (Returned current)
               | Inr (Scanned best') \<Rightarrow> explore pruning bi isect prims ray occ r n1 best'))
         else if h0 then explore pruning bi isect prims ray occ l n0 best
         else if h1 then explore pruning bi isect prims ray occ r n1 best
         else Inr (Scanned best))"
      using False c0 c1 by auto
    let ?loop = "traverse_loop pruning bi isect flatTree prims ray occ"
    let ?explore = "explore pruning bi isect prims ray occ"
    have step: "?loop ((k, near) # todo) best =
        (case visit pruning bi isect flatTree prims ray occ (k, near) todo best of
           Inl e \<Rightarrow> Some (Inl e)
         | Inr (Done result) \<Rightarrow> Some (Inr result)
         | Inr (Running todo' best') \<Rightarrow> ?loop todo' best')"
      by (rule traverse_loop_step)
    consider (both_r) "h0" "h1" "n1 < n0" | (both_l) "h0" "h1" "\<not> n1 < n0"
      | (left) "h0" "\<not> h1" | (right) "\<not> h0" "h1" | (none) "\<not> h0" "\<not> h1"
      by blast
    then show ?thesis
    proof cases
      case both_r
      have "?loop ((k, near) # todo) best = ?loop ((k + ro, n1) # (k + 1, n0) # todo) best"
        unfolding step v using both_r by simp
      also have "\<dots> = finish (?explore r n1 best) (?loop ((k + 1, n0) # todo))"
        by (rule IHr [OF dr])
      also have "\<dots> = finish (?explore r n1 best) (\<lambda>b'. finish (?explore l n0 b') (?loop todo))"
        using IHl [OF dl0] by (simp add: finish_def split: sum.splits scan.splits)
      also have "\<dots> = finish (?explore (Inner b l r) near best) (?loop todo)"
        unfolding e using both_r by (simp add: finish_bind)
      finally show ?thesis .
    next
      case both_l
      have "?loop ((k, near) # todo) best = ?loop ((k + 1, n0) # (k + ro, n1) # todo) best"
        unfolding step v using both_l by simp
      also have "\<dots> = finish (?explore l n0 best) (?loop ((k + ro, n1) # todo))"
        by (rule IHl [OF dl])
      also have "\<dots> = finish (?explore l n0 best) (\<lambda>b'. finish (?explore r n1 b') (?loop todo))"
        using IHr [OF dr0] by (simp add: finish_def split: sum.splits scan.splits)
      also have "\<dots> = finish (?explore (Inner b l r) near best) (?loop todo)"
        unfolding e using both_l by (simp add: finish_bind)
      finally show ?thesis .
    next
      case left
      have "?loop ((k, near) # todo) best = ?loop ((k + 1, n0) # todo) best"
        unfolding step v using left by simp
      also have "\<dots> = finish (?explore l n0 best) (?loop todo)"
        by (rule IHl [OF dl0])
      also have "\<dots> = finish (?explore (Inner b l r) near best) (?loop todo)"
        unfolding e using left by simp
      finally show ?thesis .
    next
      case right
      have "?loop ((k, near) # todo) best = ?loop ((k + ro, n1) # todo) best"
        unfolding step v using right by simp
      also have "\<dots> = finish (?explore r n1 best) (?loop todo)"
        by (rule IHr [OF dr0])
      also have "\<dots> = finish (?explore (Inner b l r) near best) (?loop todo)"
        unfolding e using right by simp
      finally show ?thesis .
    next
      case none
      show ?thesis
        unfolding step v e using none by (simp add: finish_def)
    qed
  qed
qed

lemma le_PInf [simp]: "x \<le> PInf"
  by (cases x) simp_all

lemma PInf_le [simp]: "PInf \<le> x \<longleftrightarrow> x = PInf"
  by (cases x) simp_all

lemma not_PInf_less [simp]: "\<not> PInf < x"
  by (simp add: not_less)

lemma t_closest: "t (closest a b) = min (t a) (t b)"
  by (auto simp: closest_def min_def)

lemma closest_cases: "closest a b = a \<or> closest a b = b"
  by (simp add: closest_def)

lemma closest_keep: "t a < t b \<Longrightarrow> closest a b = a"
  by (simp add: closest_def)

lemma least_of_unique: "least_of m a S \<Longrightarrow> least_of m' a S \<Longrightarrow> m = m'"
  unfolding least_of_def by (meson order.antisym)

lemma least_of_empty: "least_of a a {}"
  by (simp add: least_of_def)

lemma least_of_trans: "least_of m a S \<Longrightarrow> least_of m' m T \<Longrightarrow> least_of m' a (S \<union> T)"
  unfolding least_of_def by (auto intro: order_trans)

lemma least_of_missed: "least_of m a S \<Longrightarrow> \<forall>x\<in>T. x = PInf \<Longrightarrow> least_of m a (S \<union> T)"
  unfolding least_of_def by auto

lemma least_of_closest:
  "least_of m (t (closest best cur)) S \<Longrightarrow> least_of m (t best) (insert (t cur) S)"
  unfolding least_of_def t_closest by (auto simp: min_def split: if_splits)

lemma least_of_invalid: "least_of m a S \<Longrightarrow> least_of m a (insert PInf S)"
  unfolding least_of_def by auto

lemma range_step: "off < c \<Longrightarrow> {s + off..<s + c} = insert (s + off) {s + (off + 1)..<s + (c::nat)}"
  by auto

lemma range_here: "off < c \<Longrightarrow> s + off \<in> {s + off..<s + (c::nat)}"
  by simp

lemma range_rest: "j \<in> {s + (off + 1)..<s + c} \<Longrightarrow> j \<in> {s + off..<s + (c::nat)}"
  by simp

lemma leaf_loop_Inr:
  "\<forall>j\<in>{s + off..<s + c}. j < length prims \<and> j < 2 ^ 32 \<Longrightarrow>
   \<exists>x. leaf_loop isect prims ray occ s c off best = Inr x"
proof (induction isect prims ray occ s c off best rule: leaf_loop.induct)
  case (1 isect prims ray occ s c off best)
  show ?case
  proof (cases "off < c")
    case True
    with "1.prems" have inb: "s + off < length prims" and w: "uint32_add s off = s + off"
      and rest: "\<forall>j\<in>{s + (off + 1)..<s + c}. j < length prims \<and> j < 2 ^ 32"
      by (auto simp: uint32_add_small)
    from True inb "1.IH"(1) [OF True inb [folded w] refl _ _ rest]
      "1.IH"(2) [OF True inb [folded w] refl _ rest]
    show ?thesis
      by (subst leaf_loop.simps) (auto simp: Let_def w)
  next
    case False
    then show ?thesis
      by (subst leaf_loop.simps) simp
  qed
qed

lemma leaf_loop_nearest:
  "\<not> occ \<Longrightarrow> \<forall>j\<in>{s + off..<s + c}. j < 2 ^ 32 \<Longrightarrow>
   leaf_loop isect prims ray occ s c off best = Inr x \<Longrightarrow>
   \<exists>b. x = Scanned b \<and>
     least_of (t b) (t best) ((\<lambda>j. t (isect (prims ! j) ray)) ` {s + off..<s + c})"
proof (induction isect prims ray occ s c off best rule: leaf_loop.induct)
  case (1 isect prims ray occ s c off best)
  note occ = \<open>\<not> occ\<close> and run = \<open>leaf_loop isect prims ray occ s c off best = Inr x\<close>
    and nw = \<open>\<forall>j\<in>{s + off..<s + c}. j < 2 ^ 32\<close>
  show ?case
  proof (cases "off < c")
    case True
    with nw have w: "uint32_add s off = s + off"
      and rest: "\<forall>j\<in>{s + (off + 1)..<s + c}. j < 2 ^ 32"
      by (auto simp: uint32_add_small)
    from run True have inb: "s + off < length prims"
      by (subst (asm) leaf_loop.simps) (auto simp: w split: if_splits)
    let ?cur = "isect (prims ! (s + off)) ray"
    let ?f = "\<lambda>j. t (isect (prims ! j) ray)"
    show ?thesis
    proof (cases "valid ?cur")
      case v: True
      from run True inb v occ
      have "leaf_loop isect prims ray occ s c (off + 1) (closest best ?cur) = Inr x"
        by (subst (asm) leaf_loop.simps) (simp add: Let_def w)
      from "1.IH"(1) [OF True inb [folded w] refl v [folded w] occ occ rest this [folded w]]
      obtain b where
        b: "x = Scanned b" "least_of (t b) (t (closest best ?cur)) (?f ` {s + (off + 1)..<s + c})"
        by (auto simp: w)
      from least_of_closest [OF b(2)] b(1) show ?thesis
        by (auto simp: range_step [OF True])
    next
      case v: False
      from run True inb v
      have "leaf_loop isect prims ray occ s c (off + 1) best = Inr x"
        by (subst (asm) leaf_loop.simps) (simp add: Let_def w)
      from "1.IH"(2) [OF True inb [folded w] refl v [folded w] occ rest this] obtain b where
        b: "x = Scanned b" "least_of (t b) (t best) (?f ` {s + (off + 1)..<s + c})"
        by auto
      from v have "t ?cur = PInf"
        by (simp add: valid_def)
      with least_of_invalid [OF b(2)] b(1) show ?thesis
        by (auto simp: range_step [OF True])
    qed
  next
    case False
    with run show ?thesis
      by (subst (asm) leaf_loop.simps) (auto simp: least_of_empty)
  qed
qed

lemma encloses_box:
  "encloses bi isect prims ray tr \<Longrightarrow> box_encloses bi isect prims ray (box_of tr) (prim_indices tr)"
  by (cases tr) simp_all

lemma encloses_hit:
  assumes "encloses bi isect prims ray tr" "bi (box_of tr) ray = (True, n, f)"
  shows "\<forall>x\<in>hit_ts isect prims ray tr. n \<le> x"
proof
  fix x assume "x \<in> hit_ts isect prims ray tr"
  then obtain j where j: "j \<in> set (prim_indices tr)" "x = t (isect (prims ! j) ray)"
    by (auto simp: hit_ts_def)
  show "n \<le> x"
  proof (cases "valid (isect (prims ! j) ray)")
    case True
    with encloses_box [OF assms(1)] assms(2) j show ?thesis
      by (auto simp: box_encloses_def)
  next
    case False
    with j show ?thesis
      by (simp add: valid_def)
  qed
qed

lemma encloses_miss:
  assumes "encloses bi isect prims ray tr" "bi (box_of tr) ray = (False, n, f)"
  shows "\<forall>j\<in>set (prim_indices tr). \<not> valid (isect (prims ! j) ray)"
  using encloses_box [OF assms(1)] assms(2) by (auto simp: box_encloses_def)

lemma encloses_miss_ts:
  assumes "encloses bi isect prims ray tr" "bi (box_of tr) ray = (False, n, f)"
  shows "\<forall>x\<in>hit_ts isect prims ray tr. x = PInf"
  using encloses_miss [OF assms] by (auto simp: hit_ts_def valid_def)

lemma hit_ts_Leaf:
  "hit_ts isect prims ray (Leaf b s c) = (\<lambda>j. t (isect (prims ! j) ray)) ` {s + 0..<s + c}"
  by (simp add: hit_ts_def)

lemma hit_ts_Inner:
  "hit_ts isect prims ray (Inner b l r) = hit_ts isect prims ray l \<union> hit_ts isect prims ray r"
  by (auto simp: hit_ts_def)

lemma ranges_ok_Inner:
  "ranges_ok prims (Inner b l r) \<longleftrightarrow> ranges_ok prims l \<and> ranges_ok prims r"
  by (auto simp: ranges_ok_def)

lemma ranges_ok_Leaf:
  "ranges_ok prims (Leaf b s c) \<Longrightarrow> \<forall>j\<in>{s + 0..<s + c}. j < length prims \<and> j < 2 ^ 32"
  by (simp add: ranges_ok_def)

lemma ranges_ok_Leaf_nowrap:
  "ranges_ok prims (Leaf b s c) \<Longrightarrow> \<forall>j\<in>{s + 0..<s + c}. j < 2 ^ 32"
  by (simp add: ranges_ok_def)

lemma least_of_pruned: "near > a \<Longrightarrow> \<forall>x\<in>S. near \<le> x \<Longrightarrow> least_of a a S"
  unfolding least_of_def by auto

lemma explore_Leaf:
  "\<not> (pr \<and> near > t best) \<Longrightarrow>
   explore pr bi isect prims ray occ (Leaf b s c) near best = leaf_loop isect prims ray occ s c 0 best"
  by auto

lemma explore_pruned:
  "pr \<and> near > t best \<Longrightarrow> explore pr bi isect prims ray occ tr near best = Inr (Scanned best)"
  by (cases tr) simp_all

lemma explore_Inner:
  assumes "\<not> (pr \<and> near > t best)"
    and "bi (box_of l) ray = (h0, n0, f0)" "bi (box_of r) ray = (h1, n1, f1)"
  shows "explore pr bi isect prims ray occ (Inner b l r) near best =
     (if h0 \<and> h1 then
        (if n1 < n0 then
           (case explore pr bi isect prims ray occ r n1 best of
              Inl e \<Rightarrow> Inl e
            | Inr (Returned current) \<Rightarrow> Inr (Returned current)
            | Inr (Scanned best') \<Rightarrow> explore pr bi isect prims ray occ l n0 best')
         else
           (case explore pr bi isect prims ray occ l n0 best of
              Inl e \<Rightarrow> Inl e
            | Inr (Returned current) \<Rightarrow> Inr (Returned current)
            | Inr (Scanned best') \<Rightarrow> explore pr bi isect prims ray occ r n1 best'))
      else if h0 then explore pr bi isect prims ray occ l n0 best
      else if h1 then explore pr bi isect prims ray occ r n1 best
      else Inr (Scanned best))"
  using assms by auto

lemma explore_nearest:
  assumes occ: "\<not> occ"
  shows "encloses bi isect prims ray tr \<Longrightarrow> ranges_ok prims tr \<Longrightarrow>
    (pr \<and> near > t best \<longrightarrow> (\<forall>x\<in>hit_ts isect prims ray tr. near \<le> x)) \<Longrightarrow>
    \<exists>b. explore pr bi isect prims ray occ tr near best = Inr (Scanned b) \<and>
      least_of (t b) (t best) (hit_ts isect prims ray tr)"
proof (induction tr arbitrary: near best)
  case (Leaf b s c)
  show ?case
  proof (cases "pr \<and> near > t best")
    case True
    with Leaf.prems(3) have "least_of (t best) (t best) (hit_ts isect prims ray (Leaf b s c))"
      by (auto intro: least_of_pruned)
    with True show ?thesis
      by (simp add: explore_pruned)
  next
    case False
    from ranges_ok_Leaf [OF Leaf.prems(2)]
    obtain x where x: "leaf_loop isect prims ray occ s c 0 best = Inr x"
      using leaf_loop_Inr [of s 0 c prims isect ray occ best] by blast
    from leaf_loop_nearest [OF occ ranges_ok_Leaf_nowrap [OF Leaf.prems(2)] x] x False
    show ?thesis
      by (auto simp: explore_Leaf hit_ts_Leaf)
  qed
next
  case (Inner b l r)
  let ?ex = "explore pr bi isect prims ray occ"
  let ?ts = "hit_ts isect prims ray"
  from Inner.prems have el: "encloses bi isect prims ray l" and er: "encloses bi isect prims ray r"
    and rl: "ranges_ok prims l" and rr: "ranges_ok prims r"
    by (simp_all add: ranges_ok_Inner)
  note IHl = Inner.IH(1) [OF el rl] and IHr = Inner.IH(2) [OF er rr]
  show ?case
  proof (cases "pr \<and> near > t best")
    case True
    with Inner.prems(3) have "least_of (t best) (t best) (?ts (Inner b l r))"
      by (auto intro: least_of_pruned)
    with True show ?thesis
      by (simp add: explore_pruned)
  next
    case False
    obtain h0 n0 f0 where c0: "bi (box_of l) ray = (h0, n0, f0)"
      by (cases "bi (box_of l) ray")
    obtain h1 n1 f1 where c1: "bi (box_of r) ray = (h1, n1, f1)"
      by (cases "bi (box_of r) ray")
    note e = explore_Inner [where bi = bi and ray = ray and l = l and r = r and isect = isect
        and prims = prims and occ = occ and b = b, OF False c0 c1]
    have L: "\<exists>b'. ?ex l n0 a = Inr (Scanned b') \<and> least_of (t b') (t a) (?ts l)" if "h0" for a
      using IHl [where near = n0 and best = a] encloses_hit [OF el] c0 that by auto
    have R: "\<exists>b'. ?ex r n1 a = Inr (Scanned b') \<and> least_of (t b') (t a) (?ts r)" if "h1" for a
      using IHr [where near = n1 and best = a] encloses_hit [OF er] c1 that by auto
    have Lm: "\<forall>x\<in>?ts l. x = PInf" if "\<not> h0"
      using encloses_miss_ts [OF el] c0 that by auto
    have Rm: "\<forall>x\<in>?ts r. x = PInf" if "\<not> h1"
      using encloses_miss_ts [OF er] c1 that by auto
    consider (both_r) "h0" "h1" "n1 < n0" | (both_l) "h0" "h1" "\<not> n1 < n0"
      | (left) "h0" "\<not> h1" | (right) "\<not> h0" "h1" | (none) "\<not> h0" "\<not> h1"
      by blast
    then show ?thesis
    proof cases
      case both_r
      from R [OF both_r(2), of best] obtain b1 where
        b1: "?ex r n1 best = Inr (Scanned b1)" "least_of (t b1) (t best) (?ts r)"
        by blast
      from L [OF both_r(1), of b1] obtain b2 where
        b2: "?ex l n0 b1 = Inr (Scanned b2)" "least_of (t b2) (t b1) (?ts l)"
        by blast
      from least_of_trans [OF b1(2) b2(2)] have "least_of (t b2) (t best) (?ts (Inner b l r))"
        by (simp add: hit_ts_Inner Un_commute)
      with both_r b1 b2 show ?thesis
        unfolding e by simp
    next
      case both_l
      from L [OF both_l(1), of best] obtain b1 where
        b1: "?ex l n0 best = Inr (Scanned b1)" "least_of (t b1) (t best) (?ts l)"
        by blast
      from R [OF both_l(2), of b1] obtain b2 where
        b2: "?ex r n1 b1 = Inr (Scanned b2)" "least_of (t b2) (t b1) (?ts r)"
        by blast
      from least_of_trans [OF b1(2) b2(2)] have "least_of (t b2) (t best) (?ts (Inner b l r))"
        by (simp add: hit_ts_Inner)
      with both_l b1 b2 show ?thesis
        unfolding e by simp
    next
      case left
      from L [OF left(1), of best] obtain b1 where
        b1: "?ex l n0 best = Inr (Scanned b1)" "least_of (t b1) (t best) (?ts l)"
        by blast
      from least_of_missed [OF b1(2) Rm [OF left(2)]]
      have "least_of (t b1) (t best) (?ts (Inner b l r))"
        by (simp add: hit_ts_Inner)
      with left b1 show ?thesis
        unfolding e by simp
    next
      case right
      from R [OF right(2), of best] obtain b1 where
        b1: "?ex r n1 best = Inr (Scanned b1)" "least_of (t b1) (t best) (?ts r)"
        by blast
      from least_of_missed [OF b1(2) Lm [OF right(1)]]
      have "least_of (t b1) (t best) (?ts (Inner b l r))"
        by (simp add: hit_ts_Inner Un_commute)
      with right b1 show ?thesis
        unfolding e by simp
    next
      case none
      from Lm Rm none have "\<forall>x\<in>?ts (Inner b l r). x = PInf"
        by (auto simp: hit_ts_Inner)
      from least_of_missed [OF least_of_empty this]
      have "least_of (t best) (t best) (?ts (Inner b l r))"
        by simp
      with none show ?thesis
        unfolding e by simp
    qed
  qed
qed

lemma t_foldl_closest:
  "least_of (t (foldl (\<lambda>best obj. closest best (isect obj ray)) a ps)) (t a)
     ((\<lambda>obj. t (isect obj ray)) ` set ps)"
proof (induction ps arbitrary: a)
  case Nil
  show ?case
    by (simp add: least_of_empty)
next
  case (Cons p ps)
  have "least_of (t (closest a (isect p ray))) (t a) {t (isect p ray)}"
    by (rule least_of_closest) (simp add: least_of_empty)
  from least_of_trans [OF this Cons [of "closest a (isect p ray)"]] show ?case
    by simp
qed

lemma least_of_PInf: "least_of m PInf S \<Longrightarrow> m = PInf \<longleftrightarrow> (\<forall>x\<in>S. x = PInf)"
  unfolding least_of_def by auto

lemma traverse_explore:
  assumes "stored_at flatTree 0 tr" "depth tr < 64"
  shows "traverse_with pr bi isect flatTree prims ray occ =
     finish (explore pr bi isect prims ray occ tr (Fin (- 9999999)) no_intersection)
       (\<lambda>b. Some (Inr b))"
proof -
  have "traverse_loop pr bi isect flatTree prims ray occ [] = (\<lambda>b. Some (Inr b))"
    by (rule ext) simp
  with loop_explore [OF assms(1), of "[]" pr bi isect prims ray occ "Fin (- 9999999)" no_intersection]
    assms(2) show ?thesis
    by (simp add: traverse_with_def)
qed

lemma hit_ts_all:
  "set (prim_indices tr) = {..<length prims} \<Longrightarrow>
   hit_ts isect prims ray tr = (\<lambda>obj. t (isect obj ray)) ` set prims"
  unfolding hit_ts_def set_conv_nth by auto

lemma scene_stored: "stored_at scene_nodes 0 scene_tree"
  by (simp add: scene_nodes_def scene_tree_def)

lemma scene_depth: "depth scene_tree < 64"
  by (simp add: scene_tree_def)

lemma scene_cover: "set (prim_indices scene_tree) = {..<length scene_prims}"
  by (auto simp: scene_tree_def scene_prims_def)


lemma scene_encloses: "encloses interval_intersect point_intersector scene_prims 0 scene_tree"
  by (simp add: scene_tree_def scene_prims_def box_encloses_def interval_intersect_def
      point_intersector_def valid_def no_intersection_def upt_rec)

lemma Fin_less [simp]: "Fin x < Fin y \<longleftrightarrow> x < y"
  by (auto simp: less_Float_def)

lemma Fin_less_PInf [simp]: "Fin x < PInf"
  by (simp add: less_Float_def)

lemma NInf_less_Fin [simp]: "NInf < Fin x"
  by (simp add: less_Float_def)

lemma not_less_NInf [simp]: "\<not> x < NInf"
  by (cases x) (simp_all add: less_Float_def)

lemma traverse_loop_cong_Some:
  assumes run: "traverse_loop pr bi isect flatTree prims ray occ todo best = Some y"
    and eq: "\<And>entry todo best.
      visit pr bi isect flatTree prims ray occ entry todo best =
      visit pr' bi' isect' flatTree' prims' ray' occ' entry todo best"
  shows "traverse_loop pr' bi' isect' flatTree' prims' ray' occ' todo best = Some y"
proof -
  let ?P = "\<lambda>pr bi isect flatTree prims ray occ todo best y.
    (\<forall>entry todo best.
      visit pr bi isect flatTree prims ray occ entry todo best =
      visit pr' bi' isect' flatTree' prims' ray' occ' entry todo best) \<longrightarrow>
    traverse_loop pr' bi' isect' flatTree' prims' ray' occ' todo best = Some y"
  have "?P pr bi isect flatTree prims ray occ todo best y"
  proof (rule traverse_loop.raw_induct [where P = ?P, OF _ run], goal_cases)
    case (1 f pr bi isect flatTree prims ray occ todo best y)
    show ?case
    proof
      assume eq: "\<forall>entry todo best.
        visit pr bi isect flatTree prims ray occ entry todo best =
        visit pr' bi' isect' flatTree' prims' ray' occ' entry todo best"
      show "traverse_loop pr' bi' isect' flatTree' prims' ray' occ' todo best = Some y"
      proof (cases todo)
        case Nil
        with "1"(2) show ?thesis
          by simp
      next
        case (Cons entry rest)
        let ?v = "visit pr' bi' isect' flatTree' prims' ray' occ' entry rest best"
        from eq have v: "visit pr bi isect flatTree prims ray occ entry rest best = ?v"
          by blast
        show ?thesis
        proof (cases ?v)
          case (Inl e)
          with "1"(2) Cons v show ?thesis
            by (simp add: traverse_loop_step)
        next
          case (Inr st)
          show ?thesis
          proof (cases st)
            case (Done r)
            with "1"(2) Cons v Inr show ?thesis
              by (simp add: traverse_loop_step)
          next
            case (Running todo' best')
            with "1"(2) Cons v Inr have "f pr bi isect flatTree prims ray occ todo' best' = Some y"
              by simp
            from "1"(1) [OF this] eq
            have "traverse_loop pr' bi' isect' flatTree' prims' ray' occ' todo' best' = Some y"
              by blast
            with Cons Inr Running show ?thesis
              by (simp add: traverse_loop_step)
          qed
        qed
      qed
    qed
  qed
  with eq show ?thesis
    by simp
qed

lemma traverse_loop_cong:
  assumes "\<And>entry todo best.
      visit pr bi isect flatTree prims ray occ entry todo best =
      visit pr' bi' isect' flatTree' prims' ray' occ' entry todo best"
  shows "traverse_loop pr bi isect flatTree prims ray occ todo best =
         traverse_loop pr' bi' isect' flatTree' prims' ray' occ' todo best"
proof (cases "traverse_loop pr bi isect flatTree prims ray occ todo best")
  case (Some y)
  from traverse_loop_cong_Some [OF Some assms] Some show ?thesis
    by simp
next
  case None
  show ?thesis
  proof (cases "traverse_loop pr' bi' isect' flatTree' prims' ray' occ' todo best")
    case (Some y)
    from traverse_loop_cong_Some [OF Some assms [symmetric]] None show ?thesis
      by simp
  next
    case n: None
    with None show ?thesis
      by simp
  qed
qed

lemma leaf_loop_cong:
  "\<forall>obj\<in>set prims. isect obj ray = isect' obj ray \<Longrightarrow>
   leaf_loop isect prims ray occ s c off best = leaf_loop isect' prims ray occ s c off best"
proof (induction isect prims ray occ s c off best rule: leaf_loop.induct)
  case (1 isect prims ray occ s c off best)
  show ?case
  proof (cases "off < c \<and> uint32_add s off < length prims")
    case True
    then have eq: "isect (prims ! uint32_add s off) ray = isect' (prims ! uint32_add s off) ray"
      using "1.prems" by simp
    from True "1.IH"(1) [OF _ _ refl _ _ "1.prems"] "1.IH"(2) [OF _ _ refl _ "1.prems"]
    show ?thesis
      by (subst leaf_loop.simps, subst (2) leaf_loop.simps) (simp add: Let_def eq)
  next
    case False
    then show ?thesis
      by (subst leaf_loop.simps, subst (2) leaf_loop.simps) auto
  qed
qed

lemma visit_outside:
  "\<not> (ni < 2 ^ 31 \<and> ni < length flatTree) \<Longrightarrow>
   visit pr bi isect flatTree prims ray occ (ni, near) todo best = Inl OutOfBounds"
  by (simp add: visit_def)

lemma visit_inner_outside:
  "ni < 2 ^ 31 \<Longrightarrow> ni < length flatTree \<Longrightarrow> \<not> (pr \<and> near > t best) \<Longrightarrow>
   rightOffset (flatTree ! ni) \<noteq> 0 \<Longrightarrow>
   \<not> (ni + 1 < 2 ^ 31 \<and> ni + 1 < length flatTree \<and>
      uint32_add ni (rightOffset (flatTree ! ni)) < length flatTree) \<Longrightarrow>
   visit pr bi isect flatTree prims ray occ (ni, near) todo best = Inl OutOfBounds"
  by (auto simp: visit_def)

lemma visit_cong:
  assumes I: "\<forall>obj\<in>set prims. isect obj ray = isect' obj ray"
    and B: "\<forall>node\<in>set flatTree.
      fst (bi (bbox node) ray) = fst (bi' (bbox node) ray) \<and>
      fst (snd (bi (bbox node) ray)) = fst (snd (bi' (bbox node) ray))"
  shows "visit pr bi isect flatTree prims ray occ entry todo best =
         visit pr bi' isect' flatTree prims ray occ entry todo best"
proof -
  obtain ni near where entry: "entry = (ni, near)"
    by (cases entry)
  define ro where "ro = rightOffset (flatTree ! ni)"
  define rc where "rc = uint32_add ni ro"
  have L: "leaf_loop isect prims ray occ s c off a = leaf_loop isect' prims ray occ s c off a"
    for s c off a
    using I by (rule leaf_loop_cong)
  consider (outside) "\<not> (ni < 2 ^ 31 \<and> ni < length flatTree)"
    | (pruned) "ni < 2 ^ 31" "ni < length flatTree" "pr \<and> near > t best"
    | (leaf) "ni < 2 ^ 31" "ni < length flatTree" "\<not> (pr \<and> near > t best)" "ro = 0"
    | (inner_outside) "ni < 2 ^ 31" "ni < length flatTree" "\<not> (pr \<and> near > t best)" "ro \<noteq> 0"
        "\<not> (ni + 1 < 2 ^ 31 \<and> ni + 1 < length flatTree \<and> rc < length flatTree)"
    | (inner) "ni < 2 ^ 31" "ni < length flatTree" "\<not> (pr \<and> near > t best)" "ro \<noteq> 0"
        "ni + 1 < 2 ^ 31" "ni + 1 < length flatTree" "rc < length flatTree"
    by blast
  then show ?thesis
  proof cases
    case outside
    then show ?thesis
      unfolding entry by (simp add: visit_outside)
  next
    case pruned
    then show ?thesis
      unfolding entry by (simp add: visit_pruned)
  next
    case leaf
    then show ?thesis
      unfolding entry ro_def by (simp add: visit_leaf L)
  next
    case inner_outside
    then show ?thesis
      unfolding entry ro_def rc_def by (simp add: visit_inner_outside)
  next
    case inner
    obtain h0 n0 f0 where c0: "bi (bbox (flatTree ! (ni + 1))) ray = (h0, n0, f0)"
      by (cases "bi (bbox (flatTree ! (ni + 1))) ray")
    obtain h1 n1 f1 where c1: "bi (bbox (flatTree ! rc)) ray = (h1, n1, f1)"
      by (cases "bi (bbox (flatTree ! rc)) ray")
    obtain h0' n0' f0' where c0': "bi' (bbox (flatTree ! (ni + 1))) ray = (h0', n0', f0')"
      by (cases "bi' (bbox (flatTree ! (ni + 1))) ray")
    obtain h1' n1' f1' where c1': "bi' (bbox (flatTree ! rc)) ray = (h1', n1', f1')"
      by (cases "bi' (bbox (flatTree ! rc)) ray")
    from inner(6) have "flatTree ! (ni + 1) \<in> set flatTree"
      by (rule nth_mem)
    with B c0 c0' have e0: "h0' = h0" "n0' = n0"
      by (auto dest!: bspec)
    from inner(7) have "flatTree ! rc \<in> set flatTree"
      by (rule nth_mem)
    with B c1 c1' have e1: "h1' = h1" "n1' = n1"
      by (auto dest!: bspec)
    note ro = ro_def [symmetric]
    note rc = rc_def [symmetric]
    show ?thesis
      unfolding entry
        visit_inner [where bi = bi and ray = ray, OF inner(1,2,3) ro inner(4,5,6) rc inner(7) c0 c1]
        visit_inner [where bi = bi' and ray = ray, OF inner(1,2,3) ro inner(4,5,6) rc inner(7) c0' c1']
      by (simp add: e0 e1)
  qed
qed

lemma visit_root_box:
  assumes H: "\<forall>ni<length flatTree. rightOffset (flatTree ! ni) \<noteq> 0 \<longrightarrow>
      uint32_add ni (rightOffset (flatTree ! ni)) \<noteq> 0"
  shows "visit pr bi isect (flatTree[0 := (flatTree ! 0)\<lparr>bbox := b'\<rparr>]) prims ray occ entry todo best =
   visit pr bi isect flatTree prims ray occ entry todo best"
proof -
  let ?ns = "flatTree[0 := (flatTree ! 0)\<lparr>bbox := b'\<rparr>]"
  obtain ni near where entry: "entry = (ni, near)"
    by (cases entry)
  define ro where "ro = rightOffset (flatTree ! ni)"
  define rc where "rc = uint32_add ni ro"
  have len: "length ?ns = length flatTree"
    by simp
  have same: "rightOffset (?ns ! k) = rightOffset (flatTree ! k) \<and>
      start (?ns ! k) = start (flatTree ! k) \<and> nPrims (?ns ! k) = nPrims (flatTree ! k)"
    if "k < length flatTree" for k
    using that by (cases k) simp_all
  have box: "?ns ! k = flatTree ! k" if "k \<noteq> 0" for k
    using that by simp
  consider (outside) "\<not> (ni < 2 ^ 31 \<and> ni < length flatTree)"
    | (pruned) "ni < 2 ^ 31" "ni < length flatTree" "pr \<and> near > t best"
    | (leaf) "ni < 2 ^ 31" "ni < length flatTree" "\<not> (pr \<and> near > t best)" "ro = 0"
    | (inner_outside) "ni < 2 ^ 31" "ni < length flatTree" "\<not> (pr \<and> near > t best)" "ro \<noteq> 0"
        "\<not> (ni + 1 < 2 ^ 31 \<and> ni + 1 < length flatTree \<and> rc < length flatTree)"
    | (inner) "ni < 2 ^ 31" "ni < length flatTree" "\<not> (pr \<and> near > t best)" "ro \<noteq> 0"
        "ni + 1 < 2 ^ 31" "ni + 1 < length flatTree" "rc < length flatTree"
    by blast
  then show ?thesis
  proof cases
    case outside
    then show ?thesis
      unfolding entry by (simp add: visit_outside)
  next
    case pruned
    then show ?thesis
      unfolding entry by (simp add: visit_pruned)
  next
    case leaf
    with same [of ni] have l': "ni < length ?ns" "rightOffset (?ns ! ni) = 0"
      by (simp_all add: ro_def)
    from leaf have l: "rightOffset (flatTree ! ni) = 0"
      by (simp add: ro_def)
    show ?thesis
      unfolding entry visit_leaf [OF leaf(1) l'(1) leaf(3) l'(2)] visit_leaf [OF leaf(1,2,3) l]
      using same [OF leaf(2)] by simp
  next
    case inner_outside
    with same [of ni] have o': "ni < length ?ns" "rightOffset (?ns ! ni) \<noteq> 0"
      "\<not> (ni + 1 < 2 ^ 31 \<and> ni + 1 < length ?ns \<and>
          uint32_add ni (rightOffset (?ns ! ni)) < length ?ns)"
      by (simp_all add: ro_def rc_def)
    from inner_outside have o: "rightOffset (flatTree ! ni) \<noteq> 0"
      "\<not> (ni + 1 < 2 ^ 31 \<and> ni + 1 < length flatTree \<and>
          uint32_add ni (rightOffset (flatTree ! ni)) < length flatTree)"
      by (simp_all add: ro_def rc_def)
    show ?thesis
      unfolding entry visit_inner_outside [OF inner_outside(1) o'(1) inner_outside(3) o'(2,3)]
        visit_inner_outside [OF inner_outside(1,2,3) o]
      by simp
  next
    case inner
    obtain h0 n0 f0 where c0: "bi (bbox (flatTree ! (ni + 1))) ray = (h0, n0, f0)"
      by (cases "bi (bbox (flatTree ! (ni + 1))) ray")
    obtain h1 n1 f1 where c1: "bi (bbox (flatTree ! rc)) ray = (h1, n1, f1)"
      by (cases "bi (bbox (flatTree ! rc)) ray")
    from H inner(2,4) have nz: "ni + 1 \<noteq> 0" "rc \<noteq> 0"
      by (simp_all add: ro_def rc_def)
    from c0 c1 have c0': "bi (bbox (?ns ! (ni + 1))) ray = (h0, n0, f0)"
      and c1': "bi (bbox (?ns ! rc)) ray = (h1, n1, f1)"
      by (simp_all only: box [OF nz(1)] box [OF nz(2)])
    from inner same [of ni] have i': "ni < length ?ns" "rightOffset (?ns ! ni) = ro"
      "ni + 1 < length ?ns" "rc < length ?ns"
      by (simp_all add: ro_def)
    note ro = ro_def [symmetric]
    note rc = rc_def [symmetric]
    show ?thesis
      unfolding entry
        visit_inner [where bi = bi and ray = ray,
          OF inner(1,2,3) ro inner(4,5,6) rc inner(7) c0 c1]
        visit_inner [where bi = bi and ray = ray,
          OF inner(1) i'(1) inner(3) i'(2) inner(4,5) i'(3) rc i'(4) c0' c1']
      by simp
  qed
qed

lemma length_flatten: "length (flatten tr) = node_count tr"
  by (induction tr) simp_all

lemma stored_at_flatten:
  "length pre + node_count tr \<le> 2 ^ 31 \<Longrightarrow> stored_at (pre @ flatten tr @ post) (length pre) tr"
proof (induction tr arbitrary: pre post)
  case (Leaf b s c)
  then show ?case
    by simp
next
  case (Inner b l r)
  let ?node = "\<lparr>bbox = b, start = 0, nPrims = 0, rightOffset = 1 + node_count l\<rparr>"
  from Inner.prems have "length (pre @ [?node]) + node_count l \<le> 2 ^ 31"
    by simp
  then have l: "stored_at ((pre @ [?node]) @ flatten l @ (flatten r @ post)) (length (pre @ [?node])) l"
    by (rule Inner.IH(1))
  from Inner.prems have "length (pre @ [?node] @ flatten l) + node_count r \<le> 2 ^ 31"
    by (simp add: length_flatten)
  then have r: "stored_at ((pre @ [?node] @ flatten l) @ flatten r @ post)
      (length (pre @ [?node] @ flatten l)) r"
    by (rule Inner.IH(2))
  from Inner.prems have "length pre < 2 ^ 31"
    by simp
  with l r show ?case
    by (simp add: length_flatten add.assoc)
qed

lemma stored_at_flatten_root: "node_count tr \<le> 2 ^ 31 \<Longrightarrow> stored_at (flatten tr) 0 tr"
  using stored_at_flatten [of "[]" tr "[]"] by simp

lemma depth_chain: "depth (chain b n) = n"
  by (induction n) simp_all

lemma node_count_chain: "node_count (chain b n) = 2 * n + 1"
  by (induction n) simp_all

lemma box_of_chain: "box_of (chain b n) = b"
  by (cases n) simp_all

lemma prim_indices_chain: "prim_indices (chain b n) = []"
  by (induction n) simp_all

lemma encloses_chain: "encloses bi isect prims ray (chain b n)"
  by (induction n) (simp_all add: box_encloses_def prim_indices_chain)

lemma chain_overflow:
  assumes hit: "bi b ray = (True, d, f)" and np: "pr \<longrightarrow> t best = PInf"
  shows "stored_at flatTree k (chain b n) \<Longrightarrow> length todo < 64 \<Longrightarrow> 64 \<le> length todo + n \<Longrightarrow>
   traverse_loop pr bi isect flatTree prims ray occ ((k, near) # todo) best =
     Some (Inl StackOverflow)"
proof (induction n arbitrary: k todo near)
  case 0
  then show ?case
    by simp
next
  case (Suc n)
  define ro where "ro = 1 + node_count (chain b n)"
  from Suc.prems(1) have k: "k < 2 ^ 31" "k < length flatTree" "rightOffset (flatTree ! k) = ro"
    "ro \<noteq> 0"
    and sl: "stored_at flatTree (k + 1) (chain b n)"
    and sr: "stored_at flatTree (k + ro) (Leaf b 0 0)"
    by (auto simp: ro_def add.assoc)
  note nl = stored_at_node [OF sl] and nr = stored_at_node [OF sr]
  from nr have rc: "uint32_add k ro = k + ro"
    by (intro uint32_add_small) simp
  from np have np': "\<not> (pr \<and> near > t best)"
    by auto
  from nl hit have c0: "bi (bbox (flatTree ! (k + 1))) ray = (True, d, f)"
    by (simp add: box_of_chain)
  from nr hit have c1: "bi (bbox (flatTree ! (k + ro))) ray = (True, d, f)"
    by simp
  have v: "visit pr bi isect flatTree prims ray occ (k, near) todo best =
      (if length todo + 1 < 64 then Inr (Running ((k + 1, d) # (k + ro, d) # todo) best)
       else Inl StackOverflow)"
    using visit_inner [where bi = bi and ray = ray and rc = "k + ro" and isect = isect
        and prims = prims and occ = occ and todo = todo, OF k(1,2) np' k(3,4) _ _ rc _ c0 c1]
      nl nr by simp
  let ?loop = "traverse_loop pr bi isect flatTree prims ray occ"
  have step: "?loop ((k, near) # todo) best =
      (case visit pr bi isect flatTree prims ray occ (k, near) todo best of
         Inl e \<Rightarrow> Some (Inl e)
       | Inr (Done result) \<Rightarrow> Some (Inr result)
       | Inr (Running todo' best') \<Rightarrow> ?loop todo' best')"
    by (rule traverse_loop_step)
  show ?case
  proof (cases "length todo + 1 < 64")
    case True
    with Suc.prems have len: "length ((k + ro, d) # todo) < 64"
      "64 \<le> length ((k + ro, d) # todo) + n"
      by simp_all
    have "?loop ((k, near) # todo) best = ?loop ((k + 1, d) # (k + ro, d) # todo) best"
      unfolding step v using True by simp
    also have "\<dots> = Some (Inl StackOverflow)"
      by (rule Suc.IH [OF sl len])
    finally show ?thesis .
  next
    case False
    then show ?thesis
      unfolding step v by simp
  qed
qed

lemma leaf_loop_error: "leaf_loop isect prims ray occ s c off best = Inl e \<Longrightarrow> e = OutOfBounds"
proof (induction isect prims ray occ s c off best rule: leaf_loop.induct)
  case (1 isect prims ray occ s c off best)
  from "1.prems" show ?case
    by (subst (asm) leaf_loop.simps) (auto simp: Let_def split: if_splits dest: "1.IH")
qed

lemma explore_error: "explore pr bi isect prims ray occ tr near best = Inl e \<Longrightarrow> e = OutOfBounds"
proof (induction tr arbitrary: near best)
  case (Leaf b s c)
  then show ?case
    by (auto split: if_splits dest: leaf_loop_error)
next
  case (Inner b l r)
  show ?case
  proof (cases "pr \<and> near > t best")
    case True
    with Inner.prems show ?thesis
      by (simp add: explore_pruned)
  next
    case False
    obtain h0 n0 f0 where c0: "bi (box_of l) ray = (h0, n0, f0)"
      by (cases "bi (box_of l) ray")
    obtain h1 n1 f1 where c1: "bi (box_of r) ray = (h1, n1, f1)"
      by (cases "bi (box_of r) ray")
    from Inner.prems show ?thesis
      unfolding explore_Inner [where bi = bi and ray = ray, OF False c0 c1]
      by (auto split: if_splits sum.splits scan.splits dest: Inner.IH)
  qed
qed

lemma explore_Inr:
  "ranges_ok prims tr \<Longrightarrow> \<exists>x. explore pr bi isect prims ray occ tr near best = Inr x"
proof (induction tr arbitrary: near best)
  case (Leaf b s c)
  then have "\<forall>j\<in>{s + 0..<s + c}. j < length prims \<and> j < 2 ^ 32"
    by (rule ranges_ok_Leaf)
  then have "\<exists>x. leaf_loop isect prims ray occ s c 0 best = Inr x"
    by (rule leaf_loop_Inr)
  then show ?case
    by auto
next
  case (Inner b l r)
  then have L: "\<exists>x. explore pr bi isect prims ray occ l n a = Inr x"
    and R: "\<exists>x. explore pr bi isect prims ray occ r n a = Inr x" for n a
    by (simp_all add: ranges_ok_Inner)
  show ?case
  proof (cases "pr \<and> near > t best")
    case True
    then show ?thesis
      by (simp add: explore_pruned)
  next
    case False
    obtain h0 n0 f0 where c0: "bi (box_of l) ray = (h0, n0, f0)"
      by (cases "bi (box_of l) ray")
    obtain h1 n1 f1 where c1: "bi (box_of r) ray = (h1, n1, f1)"
      by (cases "bi (box_of r) ray")
    show ?thesis
      unfolding explore_Inner [where bi = bi and ray = ray, OF False c0 c1]
      using L R by (auto split: sum.splits scan.splits) (metis sum.distinct(1))+
  qed
qed

lemma finish_Inr: "finish (Inr x) (\<lambda>b. Some (Inr b)) = Some (Inr (scan_value x))"
  by (cases x) (simp_all add: finish_def)

lemma finish_Inl: "finish (Inl e) f = Some (Inl e)"
  by (simp add: finish_def)

lemma leaf_loop_sound:
  "\<forall>j\<in>{s + off..<s + c}. j < 2 ^ 32 \<Longrightarrow>
   leaf_loop isect prims ray occ s c off best = Inr x \<Longrightarrow>
   scan_value x = best \<or>
   (\<exists>j\<in>{s + off..<s + c}. scan_value x = isect (prims ! j) ray \<and> valid (isect (prims ! j) ray))"
proof (induction isect prims ray occ s c off best rule: leaf_loop.induct)
  case (1 isect prims ray occ s c off best)
  note run = \<open>leaf_loop isect prims ray occ s c off best = Inr x\<close>
    and nw = \<open>\<forall>j\<in>{s + off..<s + c}. j < 2 ^ 32\<close>
  let ?cur = "isect (prims ! (s + off)) ray"
  let ?P = "\<lambda>off a. scan_value x = a \<or>
    (\<exists>j\<in>{s + off..<s + c}. scan_value x = isect (prims ! j) ray \<and> valid (isect (prims ! j) ray))"
  show ?case
  proof (cases "off < c")
    case True
    with nw have w: "uint32_add s off = s + off"
      and rest: "\<forall>j\<in>{s + (off + 1)..<s + c}. j < 2 ^ 32"
      by (auto simp: uint32_add_small)
    from run True have inb: "s + off < length prims"
      by (subst (asm) leaf_loop.simps) (auto simp: w split: if_splits)
    have here: "s + off \<in> {s + off..<s + c}"
      using True by simp
    have later: "{s + (off + 1)..<s + c} \<subseteq> {s + off..<s + c}"
      by auto
    show ?thesis
    proof (cases "valid ?cur")
      case v: True
      show ?thesis
      proof (cases occ)
        case True
        with run \<open>off < c\<close> inb v have "x = Returned ?cur"
          by (subst (asm) leaf_loop.simps) (simp add: Let_def w)
        with v here show ?thesis
          by auto
      next
        case False
        with run \<open>off < c\<close> inb v
        have "leaf_loop isect prims ray occ s c (off + 1) (closest best ?cur) = Inr x"
          by (subst (asm) leaf_loop.simps) (simp add: Let_def w)
        from "1.IH"(1) [OF \<open>off < c\<close> inb [folded w] refl v [folded w] False rest this [folded w]]
        have "?P (off + 1) (closest best ?cur)"
          by (simp add: w)
        with closest_cases [of best ?cur] v here later show ?thesis
          by auto
      qed
    next
      case v: False
      with run True inb have "leaf_loop isect prims ray occ s c (off + 1) best = Inr x"
        by (subst (asm) leaf_loop.simps) (simp add: Let_def w)
      from "1.IH"(2) [OF True inb [folded w] refl v [folded w] rest this] have "?P (off + 1) best" .
      with later show ?thesis
        by auto
    qed
  next
    case False
    with run show ?thesis
      by (subst (asm) leaf_loop.simps) auto
  qed
qed

lemma explore_sound:
  "ranges_ok prims tr \<Longrightarrow> explore pr bi isect prims ray occ tr near best = Inr x \<Longrightarrow>
   scan_value x = best \<or>
   (\<exists>j\<in>set (prim_indices tr). scan_value x = isect (prims ! j) ray \<and>
      valid (isect (prims ! j) ray))"
proof (induction tr arbitrary: near best x)
  case (Leaf b s c)
  show ?case
  proof (cases "pr \<and> near > t best")
    case True
    with Leaf.prems show ?thesis
      by (auto simp: explore_pruned)
  next
    case False
    with Leaf.prems have "leaf_loop isect prims ray occ s c 0 best = Inr x"
      by (simp add: explore_Leaf)
    from leaf_loop_sound [OF ranges_ok_Leaf_nowrap [OF Leaf.prems(1)] this] show ?thesis
      by simp
  qed
next
  case (Inner b l r)
  let ?ex = "explore pr bi isect prims ray occ"
  let ?hit = "\<lambda>j. isect (prims ! j) ray"
  from Inner.prems(1) have rl: "ranges_ok prims l" and rr: "ranges_ok prims r"
    by (simp_all add: ranges_ok_Inner)
  have L: "scan_value y = a \<or> (\<exists>j\<in>set (prim_indices l). scan_value y = ?hit j \<and> valid (?hit j))"
    if "?ex l n a = Inr y" for n a y
    using rl that by (rule Inner.IH(1))
  have R: "scan_value y = a \<or> (\<exists>j\<in>set (prim_indices r). scan_value y = ?hit j \<and> valid (?hit j))"
    if "?ex r n a = Inr y" for n a y
    using rr that by (rule Inner.IH(2))
  note run = Inner.prems(2)
  show ?case
  proof (cases "pr \<and> near > t best")
    case True
    with run show ?thesis
      by (auto simp: explore_pruned)
  next
    case False
    obtain h0 n0 f0 where c0: "bi (box_of l) ray = (h0, n0, f0)"
      by (cases "bi (box_of l) ray")
    obtain h1 n1 f1 where c1: "bi (box_of r) ray = (h1, n1, f1)"
      by (cases "bi (box_of r) ray")
    note e = explore_Inner [where bi = bi and ray = ray, OF False c0 c1]
    consider (both_r) "h0" "h1" "n1 < n0" | (both_l) "h0" "h1" "\<not> n1 < n0"
      | (left) "h0" "\<not> h1" | (right) "\<not> h0" "h1" | (none) "\<not> h0" "\<not> h1"
      by blast
    then show ?thesis
    proof cases
      case both_r
      show ?thesis
      proof (cases "?ex r n1 best")
        case (Inl err)
        with run both_r show ?thesis
          unfolding e by simp
      next
        case (Inr y)
        show ?thesis
        proof (cases y)
          case (Returned cur)
          with Inr run both_r have "x = y"
            unfolding e by simp
          with R [OF Inr] show ?thesis
            by auto
        next
          case (Scanned b1)
          with Inr run both_r have "?ex l n0 b1 = Inr x"
            unfolding e by simp
          from L [OF this] R [OF Inr] Scanned show ?thesis
            by auto
        qed
      qed
    next
      case both_l
      show ?thesis
      proof (cases "?ex l n0 best")
        case (Inl err)
        with run both_l show ?thesis
          unfolding e by simp
      next
        case (Inr y)
        show ?thesis
        proof (cases y)
          case (Returned cur)
          with Inr run both_l have "x = y"
            unfolding e by simp
          with L [OF Inr] show ?thesis
            by auto
        next
          case (Scanned b1)
          with Inr run both_l have "?ex r n1 b1 = Inr x"
            unfolding e by simp
          from R [OF this] L [OF Inr] Scanned show ?thesis
            by auto
        qed
      qed
    next
      case left
      with run have "?ex l n0 best = Inr x"
        unfolding e by simp
      from L [OF this] show ?thesis
        by auto
    next
      case right
      with run have "?ex r n1 best = Inr x"
        unfolding e by simp
      from R [OF this] show ?thesis
        by auto
    next
      case none
      with run show ?thesis
        unfolding e by auto
    qed
  qed
qed

lemma leaf_loop_occlusion:
  "occ \<Longrightarrow> \<forall>j\<in>{s + off..<s + c}. j < length prims \<and> j < 2 ^ 32 \<Longrightarrow>
   (leaf_loop isect prims ray occ s c off best = Inr (Scanned best) \<and>
      (\<forall>j\<in>{s + off..<s + c}. \<not> valid (isect (prims ! j) ray))) \<or>
   (\<exists>j\<in>{s + off..<s + c}. valid (isect (prims ! j) ray) \<and>
      leaf_loop isect prims ray occ s c off best = Inr (Returned (isect (prims ! j) ray)))"
proof (induction isect prims ray occ s c off best rule: leaf_loop.induct)
  case (1 isect prims ray occ s c off best)
  note occ = \<open>occ\<close> and inb = \<open>\<forall>j\<in>{s + off..<s + c}. j < length prims \<and> j < 2 ^ 32\<close>
  let ?cur = "isect (prims ! (s + off)) ray"
  show ?case
  proof (cases "off < c")
    case True
    with inb have here: "s + off < length prims" and w: "uint32_add s off = s + off"
      and rest: "\<forall>j\<in>{s + (off + 1)..<s + c}. j < length prims \<and> j < 2 ^ 32"
      by (auto simp: uint32_add_small)
    note split = range_step [OF True, of s]
    show ?thesis
    proof (cases "valid ?cur")
      case v: True
      with True here occ
      have "leaf_loop isect prims ray occ s c off best = Inr (Returned ?cur)"
        by (subst leaf_loop.simps) (simp add: Let_def w)
      with v show ?thesis
        unfolding split by blast
    next
      case v: False
      with True here
      have eq: "leaf_loop isect prims ray occ s c off best =
          leaf_loop isect prims ray occ s c (off + 1) best"
        by (subst leaf_loop.simps) (simp add: Let_def w)
      from "1.IH"(2) [OF True here [folded w] refl v [folded w] occ rest] v show ?thesis
        unfolding split eq by auto
    qed
  next
    case False
    then show ?thesis
      by (subst leaf_loop.simps) simp
  qed
qed

lemma leaf_loop_first_hit:
  "occ \<Longrightarrow> off0 \<le> off \<Longrightarrow> off < c \<Longrightarrow>
   \<forall>j. off0 \<le> j \<and> j \<le> off \<longrightarrow> uint32_add s j < length prims \<Longrightarrow>
   valid (isect (prims ! uint32_add s off) ray) \<Longrightarrow>
   \<forall>j. off0 \<le> j \<and> j < off \<longrightarrow> \<not> valid (isect (prims ! uint32_add s j) ray) \<Longrightarrow>
   leaf_loop isect prims ray occ s c off0 best =
     Inr (Returned (isect (prims ! uint32_add s off) ray))"
proof (induction isect prims ray occ s c off0 best rule: leaf_loop.induct)
  case (1 isect prims ray occ s c off0 best)
  from "1.prems" have lt: "off0 < c" and inb: "uint32_add s off0 < length prims"
    by simp_all
  show ?case
  proof (cases "off0 = off")
    case True
    with "1.prems" show ?thesis
      by (subst leaf_loop.simps) (simp add: Let_def)
  next
    case False
    with "1.prems" have v: "\<not> valid (isect (prims ! uint32_add s off0) ray)"
      and le: "off0 + 1 \<le> off"
      and inb': "\<forall>j. off0 + 1 \<le> j \<and> j \<le> off \<longrightarrow> uint32_add s j < length prims"
      and rest: "\<forall>j. off0 + 1 \<le> j \<and> j < off \<longrightarrow> \<not> valid (isect (prims ! uint32_add s j) ray)"
      by auto
    from lt inb v
    have "leaf_loop isect prims ray occ s c off0 best =
        leaf_loop isect prims ray occ s c (off0 + 1) best"
      by (subst leaf_loop.simps) (simp add: Let_def)
    with "1.IH"(2) [OF lt inb refl v "1.prems"(1) le "1.prems"(3) inb' "1.prems"(5) rest]
    show ?thesis
      by simp
  qed
qed

lemma explore_occlusion:
  assumes occ: "occ" and best: "t best = PInf"
  shows "ranges_ok prims tr \<Longrightarrow> encloses bi isect prims ray tr \<Longrightarrow>
    (explore pr bi isect prims ray occ tr near best = Inr (Scanned best) \<and>
       (\<forall>j\<in>set (prim_indices tr). \<not> valid (isect (prims ! j) ray))) \<or>
    (\<exists>j\<in>set (prim_indices tr). valid (isect (prims ! j) ray) \<and>
       explore pr bi isect prims ray occ tr near best = Inr (Returned (isect (prims ! j) ray)))"
proof (induction tr arbitrary: near)
  case (Leaf b s c)
  from best have np: "\<not> (pr \<and> near > t best)"
    by simp
  from Leaf.prems(1) have "\<forall>j\<in>{s + 0..<s + c}. j < length prims \<and> j < 2 ^ 32"
    by (rule ranges_ok_Leaf)
  from leaf_loop_occlusion [OF occ this] show ?case
    unfolding explore_Leaf [OF np] by simp
next
  case (Inner b l r)
  let ?ex = "explore pr bi isect prims ray occ"
  let ?hit = "\<lambda>j. isect (prims ! j) ray"
  from best have np: "\<not> (pr \<and> near > t best)"
    by simp
  from Inner.prems have el: "encloses bi isect prims ray l" and er: "encloses bi isect prims ray r"
    and rl: "ranges_ok prims l" and rr: "ranges_ok prims r"
    by (simp_all add: ranges_ok_Inner)
  have L: "(?ex l n best = Inr (Scanned best) \<and> (\<forall>j\<in>set (prim_indices l). \<not> valid (?hit j))) \<or>
      (\<exists>j\<in>set (prim_indices l). valid (?hit j) \<and> ?ex l n best = Inr (Returned (?hit j)))" for n
    using rl el by (rule Inner.IH(1))
  have R: "(?ex r n best = Inr (Scanned best) \<and> (\<forall>j\<in>set (prim_indices r). \<not> valid (?hit j))) \<or>
      (\<exists>j\<in>set (prim_indices r). valid (?hit j) \<and> ?ex r n best = Inr (Returned (?hit j)))" for n
    using rr er by (rule Inner.IH(2))
  obtain h0 n0 f0 where c0: "bi (box_of l) ray = (h0, n0, f0)"
    by (cases "bi (box_of l) ray")
  obtain h1 n1 f1 where c1: "bi (box_of r) ray = (h1, n1, f1)"
    by (cases "bi (box_of r) ray")
  have Lm: "\<forall>j\<in>set (prim_indices l). \<not> valid (?hit j)" if "\<not> h0"
    using encloses_miss [OF el] c0 that by auto
  have Rm: "\<forall>j\<in>set (prim_indices r). \<not> valid (?hit j)" if "\<not> h1"
    using encloses_miss [OF er] c1 that by auto
  note e = explore_Inner [where bi = bi and ray = ray, OF np c0 c1]
  consider (both_r) "h0" "h1" "n1 < n0" | (both_l) "h0" "h1" "\<not> n1 < n0"
    | (left) "h0" "\<not> h1" | (right) "\<not> h0" "h1" | (none) "\<not> h0" "\<not> h1"
    by blast
  then show ?case
  proof cases
    case both_r
    from R [of n1] L [of n0] both_r show ?thesis
      unfolding e by auto
  next
    case both_l
    from L [of n0] R [of n1] both_l show ?thesis
      unfolding e by auto
  next
    case left
    from L [of n0] Rm left show ?thesis
      unfolding e by auto
  next
    case right
    from R [of n1] Lm right show ?thesis
      unfolding e by auto
  next
    case none
    from Lm Rm none show ?thesis
      unfolding e by auto
  qed
qed

lemma leaf_loop_keep:
  "\<not> occ \<Longrightarrow> \<forall>j\<in>{s + off..<s + c}. j < length prims \<and> j < 2 ^ 32 \<Longrightarrow>
   \<forall>j\<in>{s + off..<s + c}. t best < t (isect (prims ! j) ray) \<Longrightarrow>
   leaf_loop isect prims ray occ s c off best = Inr (Scanned best)"
proof (induction isect prims ray occ s c off best rule: leaf_loop.induct)
  case (1 isect prims ray occ s c off best)
  note occ = \<open>\<not> occ\<close> and inb = \<open>\<forall>j\<in>{s + off..<s + c}. j < length prims \<and> j < 2 ^ 32\<close>
    and far = \<open>\<forall>j\<in>{s + off..<s + c}. t best < t (isect (prims ! j) ray)\<close>
  let ?cur = "isect (prims ! (s + off)) ray"
  show ?case
  proof (cases "off < c")
    case True
    with inb far have here: "s + off < length prims" and keep: "closest best ?cur = best"
      and w: "uint32_add s off = s + off"
      and rest: "\<forall>j\<in>{s + (off + 1)..<s + c}. j < length prims \<and> j < 2 ^ 32"
      and far': "\<forall>j\<in>{s + (off + 1)..<s + c}. t best < t (isect (prims ! j) ray)"
      by (auto intro: closest_keep simp: uint32_add_small)
    show ?thesis
    proof (cases "valid ?cur")
      case v: True
      from "1.IH"(1) [OF True here [folded w] refl v [folded w] occ occ] rest far' keep
      have "leaf_loop isect prims ray occ s c (off + 1) (closest best ?cur) = Inr (Scanned best)"
        by (simp add: w)
      with True here v occ show ?thesis
        by (subst leaf_loop.simps) (simp add: Let_def w)
    next
      case v: False
      from "1.IH"(2) [OF True here [folded w] refl v [folded w] occ rest far'] True here v
      show ?thesis
        by (subst leaf_loop.simps) (simp add: Let_def w)
    qed
  next
    case False
    then show ?thesis
      by (subst leaf_loop.simps) simp
  qed
qed

lemma explore_keep:
  assumes occ: "\<not> occ"
  shows "ranges_ok prims tr \<Longrightarrow> \<forall>x\<in>hit_ts isect prims ray tr. t best < x \<Longrightarrow>
    explore False bi isect prims ray occ tr near best = Inr (Scanned best)"
proof (induction tr arbitrary: near)
  case (Leaf b s c)
  from Leaf.prems have "\<forall>j\<in>{s + 0..<s + c}. j < length prims \<and> j < 2 ^ 32"
    "\<forall>j\<in>{s + 0..<s + c}. t best < t (isect (prims ! j) ray)"
    by (simp_all add: ranges_ok_def hit_ts_def)
  with occ have "leaf_loop isect prims ray occ s c 0 best = Inr (Scanned best)"
    by (rule leaf_loop_keep)
  then show ?case
    by simp
next
  case (Inner b l r)
  from Inner.prems have "ranges_ok prims l" "\<forall>x\<in>hit_ts isect prims ray l. t best < x"
    by (simp_all add: ranges_ok_Inner hit_ts_Inner)
  then have L: "explore False bi isect prims ray occ l n best = Inr (Scanned best)" for n
    by (rule Inner.IH(1))
  from Inner.prems have "ranges_ok prims r" "\<forall>x\<in>hit_ts isect prims ray r. t best < x"
    by (simp_all add: ranges_ok_Inner hit_ts_Inner)
  then have R: "explore False bi isect prims ray occ r n best = Inr (Scanned best)" for n
    by (rule Inner.IH(2))
  obtain h0 n0 f0 where c0: "bi (box_of l) ray = (h0, n0, f0)"
    by (cases "bi (box_of l) ray")
  obtain h1 n1 f1 where c1: "bi (box_of r) ray = (h1, n1, f1)"
    by (cases "bi (box_of r) ray")
  have np: "\<not> (False \<and> near > t best)"
    by simp
  show ?case
    unfolding explore_Inner [where bi = bi and ray = ray, OF np c0 c1]
    by (simp add: L R)
qed

lemma explore_prune_eq:
  assumes occ: "\<not> occ"
  shows "ranges_ok prims tr \<Longrightarrow> encloses bi isect prims ray tr \<Longrightarrow>
    (near > t best \<longrightarrow> (\<forall>x\<in>hit_ts isect prims ray tr. near \<le> x)) \<Longrightarrow>
    explore True bi isect prims ray occ tr near best =
    explore False bi isect prims ray occ tr near best"
proof (induction tr arbitrary: near best)
  case (Leaf b s c)
  show ?case
  proof (cases "near > t best")
    case True
    with Leaf.prems(3) have "\<forall>x\<in>hit_ts isect prims ray (Leaf b s c). t best < x"
      by auto
    from explore_keep [OF occ Leaf.prems(1) this] True show ?thesis
      by (simp add: explore_pruned)
  next
    case False
    then show ?thesis
      by simp
  qed
next
  case (Inner b l r)
  from Inner.prems have el: "encloses bi isect prims ray l" and er: "encloses bi isect prims ray r"
    and rl: "ranges_ok prims l" and rr: "ranges_ok prims r"
    by (simp_all add: ranges_ok_Inner)
  show ?case
  proof (cases "near > t best")
    case True
    with Inner.prems(3) have "\<forall>x\<in>hit_ts isect prims ray (Inner b l r). t best < x"
      by auto
    from explore_keep [OF occ Inner.prems(1) this] True show ?thesis
      by (simp add: explore_pruned)
  next
    case False
    obtain h0 n0 f0 where c0: "bi (box_of l) ray = (h0, n0, f0)"
      by (cases "bi (box_of l) ray")
    obtain h1 n1 f1 where c1: "bi (box_of r) ray = (h1, n1, f1)"
      by (cases "bi (box_of r) ray")
    have L: "explore True bi isect prims ray occ l n0 a = explore False bi isect prims ray occ l n0 a"
      if "h0" for a
      using rl el encloses_hit [OF el] c0 that by (intro Inner.IH(1)) auto
    have R: "explore True bi isect prims ray occ r n1 a = explore False bi isect prims ray occ r n1 a"
      if "h1" for a
      using rr er encloses_hit [OF er] c1 that by (intro Inner.IH(2)) auto
    from False have np: "\<not> (True \<and> near > t best)" "\<not> (False \<and> near > t best)"
      by simp_all
    show ?thesis
      unfolding explore_Inner [where bi = bi and ray = ray, OF np(1) c0 c1]
        explore_Inner [where bi = bi and ray = ray, OF np(2) c0 c1]
      using L R by (auto split: sum.splits scan.splits)
  qed
qed

lemma no_intersection_invalid: "\<not> valid no_intersection"
  by (simp add: valid_def no_intersection_def)

lemma scene_ranges: "ranges_ok scene_prims scene_tree"
  by (simp add: ranges_ok_def scene_tree_def scene_prims_def)

lemma scene_encloses_4: "encloses interval_intersect point_intersector scene_prims 4 scene_tree"
  by (simp add: scene_tree_def scene_prims_def box_encloses_def interval_intersect_def
      point_intersector_def valid_def no_intersection_def upt_rec)

lemma deep_stored: "stored_at deep_nodes 0 deep_tree"
  unfolding deep_nodes_def
  by (rule stored_at_flatten_root) (simp add: deep_tree_def node_count_chain)

lemma deep_overflow:
  "traverse_with pr always_hit isect deep_nodes prims ray occ = Some (Inl StackOverflow)"
  unfolding traverse_with_def
  by (rule chain_overflow [where b = "()" and n = 64 and d = "Fin 0" and f = "Fin 1"])
    (use deep_stored in \<open>simp_all add: deep_tree_def no_intersection_def always_hit_def\<close>)

lemma blind_root_stored: "stored_at blind_root_nodes 0 blind_root_tree"
  unfolding blind_root_nodes_def
  by (rule stored_at_flatten_root) (simp add: blind_root_tree_def node_count_chain)

lemma blind_root_overflow:
  "traverse_with pr flag_intersect isect blind_root_nodes prims ray occ = Some (Inl StackOverflow)"
proof -
  define ro where "ro = 1 + node_count (chain True 63)"
  let ?best = "no_intersection :: 'a Intersection"
  from blind_root_stored have k: "(0::nat) < 2 ^ 31" "0 < length blind_root_nodes"
    "rightOffset (blind_root_nodes ! 0) = ro" "ro \<noteq> 0"
    and sl: "stored_at blind_root_nodes (0 + 1) (chain True 63)"
    and sr: "stored_at blind_root_nodes (0 + ro) (Leaf True 0 0)"
    by (auto simp: ro_def blind_root_tree_def)
  note nl = stored_at_node [OF sl] and nr = stored_at_node [OF sr]
  from nr have rc: "uint32_add 0 ro = 0 + ro"
    by (intro uint32_add_small) simp
  have np: "\<not> (pr \<and> Fin (- 9999999) > t ?best)"
    by (simp add: no_intersection_def)
  from nl have c0: "flag_intersect (bbox (blind_root_nodes ! (0 + 1))) ray = (True, Fin 0, Fin 1)"
    by (simp add: box_of_chain flag_intersect_def)
  from nr have c1: "flag_intersect (bbox (blind_root_nodes ! (0 + ro))) ray = (True, Fin 0, Fin 1)"
    by (simp add: flag_intersect_def)
  have v: "visit pr flag_intersect isect blind_root_nodes prims ray occ (0, Fin (- 9999999)) []
      ?best = Inr (Running [(0 + 1, Fin 0), (0 + ro, Fin 0)] ?best)"
    using visit_inner [where bi = flag_intersect and ray = ray and rc = "0 + ro" and isect = isect
        and prims = prims and occ = occ and todo = "[]", OF k(1,2) np k(3,4) _ _ rc _ c0 c1]
      nl nr by simp
  have "traverse_loop pr flag_intersect isect blind_root_nodes prims ray occ
      ((0 + 1, Fin 0) # [(0 + ro, Fin 0)]) ?best = Some (Inl StackOverflow)"
    by (rule chain_overflow [where b = True and n = 63 and d = "Fin 0" and f = "Fin 1"])
      (use sl in \<open>simp_all add: flag_intersect_def no_intersection_def\<close>)
  then show ?thesis
    unfolding traverse_with_def traverse_loop_step [where entry = "(0, Fin (- 9999999))"] v
    by simp
qed

lemma lop_stored: "stored_at lop_nodes 0 lop_tree"
  unfolding lop_nodes_def
  by (rule stored_at_flatten_root) (simp add: lop_tree_def node_count_chain)

lemma lop_leaf:
  "leaf_loop distance_intersector [1] ray False 0 1 0 no_intersection =
     Inr (Scanned \<lparr>t = Fin 1, object = Some 1\<rparr>)"
  by (simp add: leaf_loop.simps uint32_add_def distance_intersector_def valid_def closest_def
      no_intersection_def)

lemma lop_descent:
  "traverse_with pr entry_intersect distance_intersector lop_nodes [1] ray False =
   traverse_loop pr entry_intersect distance_intersector lop_nodes [1] ray False
     [(2, Fin 2)] \<lparr>t = Fin 1, object = Some 1\<rparr>"
proof -
  let ?best = "no_intersection :: real Intersection"
  let ?loop = "traverse_loop pr entry_intersect distance_intersector lop_nodes [1] ray False"
  from lop_stored have k: "(0::nat) < 2 ^ 31" "0 < length lop_nodes"
    "rightOffset (lop_nodes ! 0) = 2" "(2::nat) \<noteq> 0"
    and sl: "stored_at lop_nodes 1 (Leaf 0 0 1)"
    and sr: "stored_at lop_nodes 2 (chain 2 64)"
    by (auto simp: lop_tree_def numeral_2_eq_2)
  note nl = stored_at_node [OF sl] and nr = stored_at_node [OF sr]
  have rc: "uint32_add 0 2 = 2"
    by (simp add: uint32_add_def)
  have np: "\<not> (pr \<and> Fin (- 9999999) > t ?best)"
    and np0: "\<not> (pr \<and> Fin 0 > t ?best)"
    by (simp_all add: no_intersection_def)
  from nl have c0: "entry_intersect (bbox (lop_nodes ! (0 + 1))) ray = (True, Fin 0, Fin 1)"
    by (simp add: entry_intersect_def)
  from nr have c1: "entry_intersect (bbox (lop_nodes ! 2)) ray = (True, Fin 2, Fin 3)"
    by (simp add: box_of_chain entry_intersect_def)
  have v: "visit pr entry_intersect distance_intersector lop_nodes [1] ray False
      (0, Fin (- 9999999)) [] ?best = Inr (Running [(1, Fin 0), (2, Fin 2)] ?best)"
    using visit_inner [where bi = entry_intersect and ray = ray and rc = 2
        and isect = distance_intersector and prims = "[1]" and occ = False and todo = "[]",
        OF k(1,2) np k(3,4) _ _ rc _ c0 c1]
      nl nr by simp
  have "?loop [(0, Fin (- 9999999))] ?best = ?loop ((1, Fin 0) # [(2, Fin 2)]) ?best"
    unfolding traverse_loop_step [where entry = "(0, Fin (- 9999999))"] v by simp
  also have "\<dots> = finish (explore pr entry_intersect distance_intersector [1] ray False
      (Leaf 0 0 1) (Fin 0) ?best) (?loop [(2, Fin 2)])"
    by (rule loop_explore [OF sl]) simp
  also have "\<dots> = ?loop [(2, Fin 2)] \<lparr>t = Fin 1, object = Some 1\<rparr>"
    unfolding explore_Leaf [OF np0] lop_leaf finish_def by simp
  finally show ?thesis
    by (simp add: traverse_with_def)
qed

lemma lop_pruned:
  "traverse entry_intersect distance_intersector lop_nodes [1] ray False =
     Some (Inr \<lparr>t = Fin 1, object = Some 1\<rparr>)"
proof -
  from lop_stored have sr: "stored_at lop_nodes 2 (chain 2 64)"
    by (auto simp: lop_tree_def numeral_2_eq_2)
  note nr = stored_at_node [OF sr]
  have "visit True entry_intersect distance_intersector lop_nodes [1] ray False (2, Fin 2) []
      \<lparr>t = Fin 1, object = Some (1::real)\<rparr> = Inr (Running [] \<lparr>t = Fin 1, object = Some 1\<rparr>)"
    by (rule visit_pruned) (use nr in simp_all)
  then show ?thesis
    by (simp add: traverse_def lop_descent traverse_loop_step)
qed

lemma lop_unpruned:
  "traverse_unpruned entry_intersect distance_intersector lop_nodes [1] ray False =
     Some (Inl StackOverflow)"
proof -
  from lop_stored have sr: "stored_at lop_nodes 2 (chain 2 64)"
    by (auto simp: lop_tree_def numeral_2_eq_2)
  have "traverse_loop False entry_intersect distance_intersector lop_nodes [1] ray False
      [(2, Fin 2)] \<lparr>t = Fin 1, object = Some 1\<rparr> = Some (Inl StackOverflow)"
    by (rule chain_overflow [where b = 2 and n = 64 and d = "Fin 2" and f = "Fin 3"])
      (use sr in \<open>simp_all add: entry_intersect_def\<close>)
  then show ?thesis
    by (simp add: traverse_unpruned_def lop_descent)
qed

lemma wrap_visit_root:
  "\<not> near > t best \<Longrightarrow>
   visit True flag_intersect isect
     [\<lparr>bbox = b, start = 0, nPrims = 0, rightOffset = 2\<rparr>,
      \<lparr>bbox = True, start = 0, nPrims = 0, rightOffset = 4294967295\<rparr>,
      \<lparr>bbox = True, start = 0, nPrims = 1, rightOffset = 0\<rparr>] prims ray occ (0, near) todo best =
     (if length todo + 1 < 64 then Inr (Running ((1, Fin 0) # (2, Fin 0) # todo) best)
      else Inl StackOverflow)"
  by (simp add: visit_def uint32_add_def flag_intersect_def push_def)

lemma wrap_visit_leaf:
  "\<not> near > t best \<Longrightarrow>
   visit True flag_intersect distance_intersector
     [n0, n1, \<lparr>bbox = True, start = 0, nPrims = 1, rightOffset = 0\<rparr>] [1] ray False
     (2, near) todo best =
     Inr (Running todo (closest best \<lparr>t = Fin 1, object = Some 1\<rparr>))"
  by (simp add: visit_def leaf_loop.simps uint32_add_def distance_intersector_def valid_def)

lemma wrap_visit_hit:
  "\<not> near > t best \<Longrightarrow>
   visit True flag_intersect isect
     [\<lparr>bbox = True, start = 0, nPrims = 0, rightOffset = 2\<rparr>,
      \<lparr>bbox = True, start = 0, nPrims = 0, rightOffset = 4294967295\<rparr>,
      \<lparr>bbox = True, start = 0, nPrims = 1, rightOffset = 0\<rparr>] prims ray occ (1, near) todo best =
     (if length todo + 1 < 64 then Inr (Running ((2, Fin 0) # (0, Fin 0) # todo) best)
      else Inl StackOverflow)"
  by (simp add: visit_def uint32_add_def flag_intersect_def push_def)

lemma wrap_visit_miss:
  "\<not> near > t best \<Longrightarrow>
   visit True flag_intersect isect
     [\<lparr>bbox = False, start = 0, nPrims = 0, rightOffset = 2\<rparr>,
      \<lparr>bbox = True, start = 0, nPrims = 0, rightOffset = 4294967295\<rparr>,
      \<lparr>bbox = True, start = 0, nPrims = 1, rightOffset = 0\<rparr>] prims ray occ (1, near) todo best =
     (if length todo < 64 then Inr (Running ((2, Fin 0) # todo) best) else Inl StackOverflow)"
  by (simp add: visit_def uint32_add_def flag_intersect_def push_def)

lemma wrap_cycle:
  "m \<le> 63 \<Longrightarrow> Fin 0 \<le> t best \<Longrightarrow>
   traverse_loop True flag_intersect distance_intersector
     [\<lparr>bbox = True, start = 0, nPrims = 0, rightOffset = 2\<rparr>,
      \<lparr>bbox = True, start = 0, nPrims = 0, rightOffset = 4294967295\<rparr>,
      \<lparr>bbox = True, start = 0, nPrims = 1, rightOffset = 0\<rparr>] [1] ray False
     ((1, Fin 0) # replicate m (2, Fin 0)) best = Some (Inl StackOverflow)"
proof (induction "63 - m" arbitrary: m best)
  case 0
  then have m: "m = 63"
    by simp
  from "0.prems"(2) have np: "\<not> Fin 0 > t best"
    by simp
  show ?case
    unfolding traverse_loop_step [where entry = "(1, Fin 0)"] wrap_visit_hit [OF np]
    by (simp add: m)
next
  case (Suc d)
  let ?ns = "[\<lparr>bbox = True, start = 0, nPrims = 0, rightOffset = 2\<rparr>,
      \<lparr>bbox = True, start = 0, nPrims = 0, rightOffset = 4294967295\<rparr>,
      \<lparr>bbox = True, start = 0, nPrims = 1, rightOffset = 0\<rparr>]"
  let ?loop = "traverse_loop True flag_intersect distance_intersector ?ns [1] ray False"
  let ?cur = "\<lparr>t = Fin 1, object = Some (1::real)\<rparr>"
  let ?rest = "replicate m (2 :: nat, Fin 0)"
  from Suc.hyps(2) have m: "m + 1 < 64" "d = 63 - (m + 1)" "m + 1 \<le> 63"
    by simp_all
  from Suc.prems(2) have np: "\<not> Fin 0 > t best"
    by simp
  from Suc.prems(2) have inv: "Fin 0 \<le> t (closest best ?cur)"
    by (simp add: t_closest)
  then have np': "\<not> Fin 0 > t (closest best ?cur)"
    by simp
  have "?loop ((1, Fin 0) # ?rest) best = ?loop ((2, Fin 0) # (0, Fin 0) # ?rest) best"
    unfolding traverse_loop_step [where entry = "(1, Fin 0)"] wrap_visit_hit [OF np]
    using m(1) by simp
  also have "\<dots> = ?loop ((0, Fin 0) # ?rest) (closest best ?cur)"
    unfolding traverse_loop_step [where entry = "(2, Fin 0)"] wrap_visit_leaf [OF np]
    by simp
  also have "\<dots> = ?loop ((1, Fin 0) # replicate (m + 1) (2, Fin 0)) (closest best ?cur)"
    unfolding traverse_loop_step [where entry = "(0, Fin 0)"]
      wrap_visit_root [OF np']
    using m(1) by simp
  also have "\<dots> = Some (Inl StackOverflow)"
    using m(2,3) inv by (rule Suc.hyps(1))
  finally show ?case .
qed

lemma wrap_hit:
  "traverse flag_intersect distance_intersector
     (wrap_nodes[0 := (wrap_nodes ! 0)\<lparr>bbox := True\<rparr>]) [1] ray False = Some (Inl StackOverflow)"
proof -
  let ?best = "no_intersection :: real Intersection"
  let ?ns = "[\<lparr>bbox = True, start = 0, nPrims = 0, rightOffset = 2\<rparr>,
      \<lparr>bbox = True, start = 0, nPrims = 0, rightOffset = 4294967295\<rparr>,
      \<lparr>bbox = True, start = 0, nPrims = 1, rightOffset = 0\<rparr>]"
  let ?loop = "traverse_loop True flag_intersect distance_intersector ?ns [1] ray False"
  have ns: "wrap_nodes[0 := (wrap_nodes ! 0)\<lparr>bbox := True\<rparr>] = ?ns"
    by (simp add: wrap_nodes_def)
  have np: "\<not> Fin (- 9999999) > t ?best"
    by (simp add: no_intersection_def)
  have "?loop [(0, Fin (- 9999999))] ?best = ?loop ((1, Fin 0) # replicate 1 (2, Fin 0)) ?best"
    unfolding traverse_loop_step [where entry = "(0, Fin (- 9999999))"] wrap_visit_root [OF np]
    by simp
  also have "\<dots> = Some (Inl StackOverflow)"
    by (rule wrap_cycle) (simp_all add: no_intersection_def)
  finally show ?thesis
    unfolding traverse_def traverse_with_def ns .
qed

lemma wrap_miss:
  "traverse flag_intersect distance_intersector wrap_nodes [1] ray False =
     Some (Inr \<lparr>t = Fin 1, object = Some 1\<rparr>)"
proof -
  let ?best = "no_intersection :: real Intersection"
  let ?cur = "\<lparr>t = Fin 1, object = Some (1::real)\<rparr>"
  let ?loop = "traverse_loop True flag_intersect distance_intersector wrap_nodes [1] ray False"
  have np: "\<not> Fin (- 9999999) > t ?best" "\<not> Fin 0 > t ?best"
    "\<not> Fin 0 > t (closest ?best ?cur)"
    by (simp_all add: no_intersection_def closest_def)
  have "?loop [(0, Fin (- 9999999))] ?best = ?loop [(1, Fin 0), (2, Fin 0)] ?best"
    unfolding wrap_nodes_def traverse_loop_step [where entry = "(0, Fin (- 9999999))"]
      wrap_visit_root [OF np(1)]
    by simp
  also have "\<dots> = ?loop [(2, Fin 0), (2, Fin 0)] ?best"
    unfolding wrap_nodes_def traverse_loop_step [where entry = "(1, Fin 0)"]
      wrap_visit_miss [OF np(2)]
    by simp
  also have "\<dots> = ?loop [(2, Fin 0)] (closest ?best ?cur)"
    unfolding wrap_nodes_def
      traverse_loop_step [where entry = "(2, Fin 0)" and todo = "[(2, Fin 0)]"]
      wrap_visit_leaf [OF np(2)]
    by simp
  also have "\<dots> = ?loop [] (closest (closest ?best ?cur) ?cur)"
    unfolding wrap_nodes_def
      traverse_loop_step [where entry = "(2, Fin 0)" and todo = "[]"]
      wrap_visit_leaf [OF np(3)]
    by simp
  also have "\<dots> = Some (Inr ?cur)"
    by (simp add: closest_def no_intersection_def)
  finally show ?thesis
    by (simp add: traverse_def traverse_with_def)
qed

lemma scene_small: "length scene_prims \<le> 2 ^ 32"
  by (simp add: scene_prims_def)

lemma cover_ranges_ok:
  "set (prim_indices tr) = {..<length prims} \<Longrightarrow> length prims \<le> 2 ^ 32 \<Longrightarrow> ranges_ok prims tr"
  by (auto simp: ranges_ok_def)

lemma deep_cover: "set (prim_indices deep_tree) = {..<length ([] :: 'p list)}"
  by (simp add: deep_tree_def prim_indices_chain)

lemma deep_encloses: "encloses bi isect prims ray deep_tree"
  unfolding deep_tree_def by (rule encloses_chain)

section \<open>Nearest-hit correctness\<close>

text \<open>
  C1, as amended. Let the node array store a tree whose depth is at most 63 (at most 64
  nodes on any root-to-leaf path), every node at an index below \<open>2^31\<close>; let the leaves
  own exactly the primitives of the primitive array, which has at most \<open>2^32\<close> entries;
  and let every bounding box enclose the primitives of its subtree (whenever the
  intersector reports a hit on one of them, the box test reports a hit that is entered
  no later). Then nearest-mode \<open>traverse\<close> returns an Intersection whose \<open>t\<close> is the \<open>t\<close>
  of the brute-force scan that folds the intersector's answers for all primitives with
  \<open>closest\<close>; it is invalid exactly when the intersector reports no hit for any
  primitive.
\<close>

theorem traverse_nearest_brute_force:
  assumes "stored_at flatTree 0 tr" and "depth tr < 64"
    and "set (prim_indices tr) = {..<length build_prims}" and "length build_prims \<le> 2 ^ 32"
    and "encloses bbox_intersect intersector build_prims ray tr"
  shows "\<exists>r :: 'a Intersection.
           traverse bbox_intersect intersector flatTree build_prims ray False = Some (Inr r) \<and>
           t r = t (brute_force intersector build_prims ray) \<and>
           (\<not> valid r \<longleftrightarrow> (\<forall>obj\<in>set build_prims. \<not> valid (intersector obj ray)))"
proof -
  let ?ts = "(\<lambda>obj. t (intersector obj ray)) ` set build_prims"
  from assms(3,4) have ok: "ranges_ok build_prims tr"
    by (rule cover_ranges_ok)
  have "\<exists>b. explore True bbox_intersect intersector build_prims ray False tr
          (Fin (- 9999999)) no_intersection = Inr (Scanned b) \<and>
        least_of (t b) (t (no_intersection :: 'a Intersection))
          (hit_ts intersector build_prims ray tr)"
    by (rule explore_nearest [OF _ assms(5) ok]) (simp_all add: no_intersection_def)
  then obtain b where b: "explore True bbox_intersect intersector build_prims ray False tr
        (Fin (- 9999999)) no_intersection = Inr (Scanned b)"
      "least_of (t b) PInf (hit_ts intersector build_prims ray tr)"
    by (auto simp: no_intersection_def)
  from b(1)
  have run: "traverse bbox_intersect intersector flatTree build_prims ray False = Some (Inr b)"
    by (simp add: traverse_def traverse_explore [OF assms(1,2)] finish_def)
  from b(2) have lb: "least_of (t b) PInf ?ts"
    by (simp add: hit_ts_all [OF assms(3)])
  have "least_of (t (brute_force intersector build_prims ray)) PInf ?ts"
    using t_foldl_closest [of intersector ray no_intersection build_prims]
    by (simp add: brute_force_def no_intersection_def)
  with lb have "t b = t (brute_force intersector build_prims ray)"
    by (rule least_of_unique)
  moreover from least_of_PInf [OF lb]
  have "\<not> valid b \<longleftrightarrow> (\<forall>obj\<in>set build_prims. \<not> valid (intersector obj ray))"
    by (simp add: valid_def)
  ultimately show ?thesis
    using run by blast
qed

theorem traverse_nearest_brute_force_witness:
  "stored_at scene_nodes 0 scene_tree \<and> depth scene_tree < 64 \<and>
   set (prim_indices scene_tree) = {..<length scene_prims} \<and> length scene_prims \<le> 2 ^ 32 \<and>
   encloses interval_intersect point_intersector scene_prims 0 scene_tree \<and>
   (\<exists>r. traverse interval_intersect point_intersector scene_nodes scene_prims 0 False =
        Some (Inr r) \<and>
      t r = t (brute_force point_intersector scene_prims 0) \<and>
      (\<not> valid r \<longleftrightarrow> (\<forall>obj\<in>set scene_prims. \<not> valid (point_intersector obj 0))))"
  using traverse_nearest_brute_force
      [OF scene_stored scene_depth scene_cover scene_small scene_encloses]
    scene_stored scene_depth scene_cover scene_small scene_encloses
  by simp

text \<open>
  C1, as stated, fails for a well-formed hierarchy that is deeper than the stack: on a
  chain of 64 internal nodes whose boxes are all hit at the same distance, with an empty
  primitive array, the brute-force scan is invalid, while nearest-mode \<open>traverse\<close> writes
  \<open>todo[64]\<close> and returns no Intersection.
\<close>

theorem deep_chain_no_nearest_result:
  "stored_at deep_nodes 0 deep_tree \<and>
   set (prim_indices deep_tree) = {..<length ([] :: unit list)} \<and>
   encloses always_hit (never_hit :: unit \<Rightarrow> unit \<Rightarrow> unit Intersection) [] () deep_tree \<and>
   \<not> valid (brute_force (never_hit :: unit \<Rightarrow> unit \<Rightarrow> unit Intersection) [] ()) \<and>
   traverse always_hit never_hit deep_nodes ([] :: unit list) () False =
     (Some (Inl StackOverflow) :: (error + unit Intersection) option)"
  using deep_stored deep_cover [where ?'p = unit]
    deep_encloses [of always_hit "never_hit :: unit \<Rightarrow> unit \<Rightarrow> unit Intersection" "[]" "()"]
    deep_overflow [of True "never_hit :: unit \<Rightarrow> unit \<Rightarrow> unit Intersection" "[]" "()" False]
  by (simp add: traverse_def brute_force_def no_intersection_invalid)

section \<open>Occlusion queries\<close>

text \<open>
  C2, as amended. Under the hypotheses of C1 as amended (a tree of depth at most 63
  stored at indices below \<open>2^31\<close>, whose leaves own exactly the at most \<open>2^32\<close>
  primitives of the array and whose boxes enclose the primitives of their subtrees),
  occlusion-mode \<open>traverse\<close> returns a valid Intersection exactly when the intersector
  reports a hit for at least one primitive of the array, and a valid result is an
  Intersection that the intersector reported for a primitive of the array. The return is
  immediate: when the loop pops a leaf that is not pruned, the first primitive of the
  leaf for which the intersector reports a hit ends the whole traversal with that
  Intersection, whatever is left on the stack and whatever the running \<open>intersection\<close>
  is.
\<close>

theorem occlusion_any_hit:
  assumes "stored_at flatTree 0 tr" and "depth tr < 64"
    and "set (prim_indices tr) = {..<length build_prims}" and "length build_prims \<le> 2 ^ 32"
    and "encloses bbox_intersect intersector build_prims ray tr"
  shows "(\<exists>r. traverse bbox_intersect intersector flatTree build_prims ray True = Some (Inr r) \<and>
            (valid r \<longleftrightarrow> (\<exists>obj\<in>set build_prims. valid (intersector obj ray))) \<and>
            (valid r \<longrightarrow> (\<exists>obj\<in>set build_prims. r = intersector obj ray))) \<and>
         (ni < 2 ^ 31 \<and> ni < length flatTree \<and> rightOffset (flatTree ! ni) = 0 \<and>
          \<not> near > t best \<and> off < nPrims (flatTree ! ni) \<and>
          (\<forall>j\<le>off. uint32_add (start (flatTree ! ni)) j < length build_prims) \<and>
          valid (intersector (build_prims ! uint32_add (start (flatTree ! ni)) off) ray) \<and>
          (\<forall>j<off. \<not> valid (intersector (build_prims ! uint32_add (start (flatTree ! ni)) j) ray)) \<longrightarrow>
          traverse_loop True bbox_intersect intersector flatTree build_prims ray True
            ((ni, near) # todo) best =
          Some (Inr (intersector (build_prims ! uint32_add (start (flatTree ! ni)) off) ray)))"
proof (intro conjI impI)
  let ?hit = "\<lambda>j. intersector (build_prims ! j) ray"
  let ?x = "explore True bbox_intersect intersector build_prims ray True tr (Fin (- 9999999))
    no_intersection"
  from assms(3,4) have ok: "ranges_ok build_prims tr"
    by (rule cover_ranges_ok)
  have run: "traverse bbox_intersect intersector flatTree build_prims ray True =
      finish ?x (\<lambda>b. Some (Inr b))"
    by (simp add: traverse_def traverse_explore [OF assms(1,2)])
  have all: "(\<exists>j\<in>set (prim_indices tr). P (?hit j)) \<longleftrightarrow>
      (\<exists>obj\<in>set build_prims. P (intersector obj ray))" for P
    unfolding assms(3) by (auto simp: in_set_conv_nth intro: bexI [OF _ nth_mem])
  have "(?x = Inr (Scanned no_intersection) \<and> (\<forall>j\<in>set (prim_indices tr). \<not> valid (?hit j))) \<or>
      (\<exists>j\<in>set (prim_indices tr). valid (?hit j) \<and> ?x = Inr (Returned (?hit j)))"
    by (rule explore_occlusion [OF _ _ ok assms(5)]) (simp_all add: no_intersection_def)
  then show "\<exists>r. traverse bbox_intersect intersector flatTree build_prims ray True = Some (Inr r) \<and>
      (valid r \<longleftrightarrow> (\<exists>obj\<in>set build_prims. valid (intersector obj ray))) \<and>
      (valid r \<longrightarrow> (\<exists>obj\<in>set build_prims. r = intersector obj ray))"
  proof (elim disjE conjE bexE)
    assume x: "?x = Inr (Scanned no_intersection)"
      and none: "\<forall>j\<in>set (prim_indices tr). \<not> valid (?hit j)"
    from none have "\<not> (\<exists>obj\<in>set build_prims. valid (intersector obj ray))"
      unfolding all [symmetric] by simp
    then show ?thesis
      unfolding run x by (simp add: finish_Inr no_intersection_invalid)
  next
    fix j
    assume j: "j \<in> set (prim_indices tr)" "valid (?hit j)" and x: "?x = Inr (Returned (?hit j))"
    from j assms(3) have "build_prims ! j \<in> set build_prims"
      by simp
    with j(2) show ?thesis
      unfolding run x by (auto simp: finish_Inr)
  qed
next
  let ?s = "start (flatTree ! ni)"
  assume a: "ni < 2 ^ 31 \<and> ni < length flatTree \<and> rightOffset (flatTree ! ni) = 0 \<and>
    \<not> near > t best \<and> off < nPrims (flatTree ! ni) \<and>
    (\<forall>j\<le>off. uint32_add ?s j < length build_prims) \<and>
    valid (intersector (build_prims ! uint32_add ?s off) ray) \<and>
    (\<forall>j<off. \<not> valid (intersector (build_prims ! uint32_add ?s j) ray))"
  then have np: "\<not> (True \<and> near > t best)" and ni: "ni < 2 ^ 31" "ni < length flatTree"
    and leaf: "rightOffset (flatTree ! ni) = 0"
    by simp_all
  from a have "leaf_loop intersector build_prims ray True ?s (nPrims (flatTree ! ni)) 0 best =
    Inr (Returned (intersector (build_prims ! uint32_add ?s off) ray))"
    by (intro leaf_loop_first_hit) simp_all
  then show "traverse_loop True bbox_intersect intersector flatTree build_prims ray True
      ((ni, near) # todo) best =
    Some (Inr (intersector (build_prims ! uint32_add ?s off) ray))"
    unfolding traverse_loop_step visit_leaf [OF ni np leaf] by simp
qed

theorem occlusion_any_hit_witness:
  "stored_at scene_nodes 0 scene_tree \<and> depth scene_tree < 64 \<and>
   set (prim_indices scene_tree) = {..<length scene_prims} \<and> length scene_prims \<le> 2 ^ 32 \<and>
   encloses interval_intersect point_intersector scene_prims 4 scene_tree \<and>
   (\<exists>r. traverse interval_intersect point_intersector scene_nodes scene_prims 4 True =
        Some (Inr r) \<and>
      valid r \<and> (\<exists>obj\<in>set scene_prims. r = point_intersector obj 4)) \<and>
   traverse_loop True interval_intersect point_intersector scene_nodes scene_prims 4 True
     [(2, Fin 0), (1, Fin 0)] no_intersection =
     Some (Inr (point_intersector (scene_prims ! 1) 4))"
proof -
  have h: "\<exists>obj\<in>set scene_prims. valid (point_intersector obj 4)"
    by (simp add: scene_prims_def point_intersector_def valid_def)
  have l: "(2::nat) < 2 ^ 31 \<and> 2 < length scene_nodes \<and> rightOffset (scene_nodes ! 2) = 0 \<and>
      \<not> Fin 0 > t (no_intersection :: real Intersection) \<and>
      0 < nPrims (scene_nodes ! 2) \<and>
      (\<forall>j\<le>0. uint32_add (start (scene_nodes ! 2)) j < length scene_prims) \<and>
      valid (point_intersector (scene_prims ! uint32_add (start (scene_nodes ! 2)) 0) 4) \<and>
      (\<forall>j<0. \<not> valid (point_intersector (scene_prims ! uint32_add (start (scene_nodes ! 2)) j) 4))"
    by (simp add: scene_nodes_def scene_prims_def point_intersector_def valid_def
        no_intersection_def uint32_add_def)
  have i: "uint32_add (start (scene_nodes ! 2)) 0 = 1"
    by (simp add: scene_nodes_def uint32_add_def)
  from occlusion_any_hit [OF scene_stored scene_depth scene_cover scene_small scene_encloses_4,
      where ni = 2 and near = "Fin 0" and best = no_intersection and off = 0
        and todo = "[(1, Fin 0)]"]
    h l scene_stored scene_depth scene_cover scene_small scene_encloses_4
  show ?thesis
    unfolding i by auto
qed

text \<open>
  C2, as stated, fails for a well-formed hierarchy that is deeper than the stack: on the
  chain of 64 internal nodes, occlusion-mode \<open>traverse\<close> writes \<open>todo[64]\<close> and returns
  no Intersection, valid or not.
\<close>

theorem deep_chain_no_occlusion_result:
  "stored_at deep_nodes 0 deep_tree \<and>
   set (prim_indices deep_tree) = {..<length ([] :: unit list)} \<and>
   encloses always_hit (never_hit :: unit \<Rightarrow> unit \<Rightarrow> unit Intersection) [] () deep_tree \<and>
   traverse always_hit never_hit deep_nodes ([] :: unit list) () True =
     (Some (Inl StackOverflow) :: (error + unit Intersection) option)"
  using deep_stored deep_cover [where ?'p = unit]
    deep_encloses [of always_hit "never_hit :: unit \<Rightarrow> unit \<Rightarrow> unit Intersection" "[]" "()"]
    deep_overflow [of True "never_hit :: unit \<Rightarrow> unit \<Rightarrow> unit Intersection" "[]" "()" True]
  by (simp add: traverse_def)

section \<open>Pruning\<close>

text \<open>
  C3, as amended. For a hierarchy of depth at most 63, stored at indices below \<open>2^31\<close>,
  whose leaf ranges lie inside the primitive array and whose boxes enclose the
  primitives of their subtrees, nearest-mode \<open>traverse\<close> with the test
  \<open>near > intersection.t\<close> removed returns the same Intersection as \<open>traverse\<close> itself.
\<close>

theorem pruning_changes_nothing:
  assumes "stored_at flatTree 0 tr" and "depth tr < 64" and "ranges_ok build_prims tr"
    and "encloses bbox_intersect intersector build_prims ray tr"
  shows "traverse_unpruned bbox_intersect intersector flatTree build_prims ray False =
           traverse bbox_intersect intersector flatTree build_prims ray False \<and>
         (\<exists>r. traverse bbox_intersect intersector flatTree build_prims ray False = Some (Inr r))"
proof
  have "explore True bbox_intersect intersector build_prims ray False tr (Fin (- 9999999))
      no_intersection =
    explore False bbox_intersect intersector build_prims ray False tr (Fin (- 9999999))
      no_intersection"
    by (rule explore_prune_eq [OF _ assms(3,4)]) (simp_all add: no_intersection_def)
  then show "traverse_unpruned bbox_intersect intersector flatTree build_prims ray False =
      traverse bbox_intersect intersector flatTree build_prims ray False"
    by (simp add: traverse_def traverse_unpruned_def traverse_explore [OF assms(1,2)])
next
  have "\<exists>x. explore True bbox_intersect intersector build_prims ray False tr
      (Fin (- 9999999)) no_intersection = Inr x"
    using assms(3) by (rule explore_Inr)
  then show "\<exists>r. traverse bbox_intersect intersector flatTree build_prims ray False = Some (Inr r)"
    by (auto simp: traverse_def traverse_explore [OF assms(1,2)] finish_Inr)
qed

theorem pruning_changes_nothing_witness:
  "stored_at scene_nodes 0 scene_tree \<and> depth scene_tree < 64 \<and>
   ranges_ok scene_prims scene_tree \<and>
   encloses interval_intersect point_intersector scene_prims 0 scene_tree \<and>
   traverse_unpruned interval_intersect point_intersector scene_nodes scene_prims 0 False =
     traverse interval_intersect point_intersector scene_nodes scene_prims 0 False \<and>
   (\<exists>r. traverse interval_intersect point_intersector scene_nodes scene_prims 0 False =
      Some (Inr r))"
  using pruning_changes_nothing [OF scene_stored scene_depth scene_ranges scene_encloses]
    scene_stored scene_depth scene_ranges scene_encloses
  by simp

text \<open>
  C3, as stated, fails for a well-formed hierarchy that is deeper than the stack. The
  left child of the root is a leaf with a hit at distance 1; the right child is a chain
  of 64 internal nodes whose boxes are entered at distance 2. \<open>traverse\<close> prunes the
  chain and returns the hit; without the prune check the traversal descends the chain
  and writes \<open>todo[64]\<close>.
\<close>

theorem pruning_hides_overflow:
  "stored_at lop_nodes 0 lop_tree \<and> ranges_ok [1 :: real] lop_tree \<and>
   encloses entry_intersect distance_intersector [1] () lop_tree \<and>
   traverse entry_intersect distance_intersector lop_nodes [1] () False =
     Some (Inr \<lparr>t = Fin 1, object = Some 1\<rparr>) \<and>
   traverse_unpruned entry_intersect distance_intersector lop_nodes [1] () False =
     Some (Inl StackOverflow)"
proof -
  have r: "ranges_ok [1 :: real] lop_tree"
    by (simp add: ranges_ok_def lop_tree_def prim_indices_chain)
  have e: "encloses entry_intersect distance_intersector [1] () lop_tree"
    by (simp add: lop_tree_def encloses_chain box_encloses_def prim_indices_chain
        entry_intersect_def distance_intersector_def)
  from lop_stored r e lop_pruned [of "()"] lop_unpruned [of "()"] show ?thesis
    by simp
qed

section \<open>Stack capacity\<close>

text \<open>
  C4, as amended. The depth of a tree counts the edges of its longest root-to-leaf path
  (a single leaf has depth 0). For every node array that stores a tree of depth at most
  63, that is with at most 64 nodes on any root-to-leaf path, every node at an index
  below \<open>2^31\<close>, the run of \<open>traverse\<close> ends and no push of it writes outside the 64
  entries of \<open>todo\<close>: the root occupies one entry and every level of descent adds at
  most one.
\<close>

theorem stack_never_overflows:
  assumes "stored_at flatTree 0 tr" and "depth tr \<le> 63"
  shows "\<exists>x. traverse bbox_intersect intersector flatTree build_prims ray occlusion = Some x \<and>
           x \<noteq> Inl StackOverflow"
proof -
  from assms(2) have "depth tr < 64"
    by simp
  from traverse_explore [OF assms(1) this]
  have run: "traverse bbox_intersect intersector flatTree build_prims ray occlusion =
    finish (explore True bbox_intersect intersector build_prims ray occlusion tr
      (Fin (- 9999999)) no_intersection) (\<lambda>b. Some (Inr b))"
    by (simp add: traverse_def)
  show ?thesis
  proof (cases "explore True bbox_intersect intersector build_prims ray occlusion tr
      (Fin (- 9999999)) no_intersection")
    case (Inl e)
    with explore_error [OF Inl] run show ?thesis
      by (simp add: finish_Inl)
  next
    case (Inr x)
    with run show ?thesis
      by (simp add: finish_Inr)
  qed
qed

theorem stack_never_overflows_witness:
  "stored_at scene_nodes 0 scene_tree \<and> depth scene_tree \<le> 63 \<and>
   (\<exists>x. traverse interval_intersect point_intersector scene_nodes scene_prims 0 False = Some x \<and>
      x \<noteq> Inl StackOverflow)"
proof -
  have d: "depth scene_tree \<le> 63"
    by (simp add: scene_tree_def)
  from stack_never_overflows [OF scene_stored d] scene_stored d show ?thesis
    by simp
qed

text \<open>
  C4, as stated, fails at depth 64: on a chain of 64 internal nodes whose boxes are all
  hit at the same distance, the left child is the closer one at every level, the stack
  holds 64 entries after the 63rd level, and the second push of the 64th level writes
  \<open>todo[64]\<close>.
\<close>

theorem depth_64_overflows:
  "stored_at deep_nodes 0 deep_tree \<and> depth deep_tree \<le> 64 \<and>
   traverse always_hit never_hit deep_nodes ([] :: unit list) () False =
     (Some (Inl StackOverflow) :: (error + unit Intersection) option)"
proof -
  have d: "depth deep_tree = 64"
    by (simp add: deep_tree_def depth_chain)
  from deep_stored d
    deep_overflow [of True "never_hit :: unit \<Rightarrow> unit \<Rightarrow> unit Intersection" "[]" "()" False]
  show ?thesis
    by (simp add: traverse_def)
qed

section \<open>Termination\<close>

text \<open>
  C5, as amended. For every node array that stores a tree of depth at most 63, every
  node at an index below \<open>2^31\<close>, whose leaf ranges lie inside the primitive array (at
  indices below \<open>2^32\<close>), the run of \<open>traverse\<close> ends and returns an Intersection, in
  both modes, without leaving the arrays. A leaf with \<open>nPrims = 0\<close> that is visited
  leaves the stack below it and the running \<open>intersection\<close> as they are.
\<close>

theorem traverse_returns:
  assumes "stored_at flatTree 0 tr" and "depth tr < 64" and "ranges_ok build_prims tr"
  shows "(\<exists>r. traverse bbox_intersect intersector flatTree build_prims ray occlusion =
              Some (Inr r)) \<and>
         (ni < 2 ^ 31 \<and> ni < length flatTree \<and> rightOffset (flatTree ! ni) = 0 \<and>
          nPrims (flatTree ! ni) = 0 \<longrightarrow>
          visit True bbox_intersect intersector flatTree build_prims ray occlusion (ni, near) todo
            best = Inr (Running todo best))"
proof (intro conjI impI)
  have "\<exists>x. explore True bbox_intersect intersector build_prims ray occlusion tr
      (Fin (- 9999999)) no_intersection = Inr x"
    using assms(3) by (rule explore_Inr)
  then show "\<exists>r. traverse bbox_intersect intersector flatTree build_prims ray occlusion =
      Some (Inr r)"
    by (auto simp: traverse_def traverse_explore [OF assms(1,2)] finish_Inr)
next
  assume leaf: "ni < 2 ^ 31 \<and> ni < length flatTree \<and> rightOffset (flatTree ! ni) = 0 \<and>
    nPrims (flatTree ! ni) = 0"
  have empty: "leaf_loop intersector build_prims ray occlusion s 0 0 best = Inr (Scanned best)" for s
    by (subst leaf_loop.simps) simp
  show "visit True bbox_intersect intersector flatTree build_prims ray occlusion (ni, near) todo
      best = Inr (Running todo best)"
  proof (cases "True \<and> near > t best")
    case True
    with leaf show ?thesis
      by (simp add: visit_pruned)
  next
    case False
    from leaf have l: "ni < 2 ^ 31" "ni < length flatTree" "rightOffset (flatTree ! ni) = 0"
      "nPrims (flatTree ! ni) = 0"
      by simp_all
    show ?thesis
      unfolding visit_leaf [OF l(1,2) False l(3)] l(4) empty by simp
  qed
qed

theorem traverse_returns_witness:
  "stored_at gap_nodes 0 gap_tree \<and> depth gap_tree < 64 \<and> ranges_ok scene_prims gap_tree \<and>
   (\<exists>r. traverse interval_intersect point_intersector gap_nodes scene_prims 0 True =
      Some (Inr r)) \<and>
   ((1::nat) < 2 ^ 31 \<and> 1 < length gap_nodes \<and> rightOffset (gap_nodes ! 1) = 0 \<and>
    nPrims (gap_nodes ! 1) = 0) \<and>
   visit True interval_intersect point_intersector gap_nodes scene_prims 0 True (1, Fin 0)
     [(2, Fin 0)] no_intersection = Inr (Running [(2, Fin 0)] no_intersection)"
proof -
  have s: "stored_at gap_nodes 0 gap_tree"
    by (simp add: gap_nodes_def gap_tree_def)
  have d: "depth gap_tree < 64"
    by (simp add: gap_tree_def)
  have r: "ranges_ok scene_prims gap_tree"
    by (simp add: ranges_ok_def gap_tree_def scene_prims_def)
  have l: "(1::nat) < 2 ^ 31 \<and> 1 < length gap_nodes \<and> rightOffset (gap_nodes ! 1) = 0 \<and>
      nPrims (gap_nodes ! 1) = 0"
    by (simp add: gap_nodes_def)
  from traverse_returns [OF s d r, where ni = 1] s d r l show ?thesis
    by simp
qed

text \<open>
  C5, as stated, fails in two ways for a finite binary tree flattened in depth-first
  pre-order with nonzero offsets exactly at its internal nodes. On the chain of 64
  internal nodes the traversal writes \<open>todo[64]\<close>, in both modes. On a single leaf
  whose range \<open>start = 0, nPrims = 1\<close> leaves an empty primitive array the traversal
  reads \<open>build_prims[0]\<close>. Neither run returns an Intersection.
\<close>

theorem traverse_leaves_arrays:
  "stored_at deep_nodes 0 deep_tree \<and>
   traverse always_hit never_hit deep_nodes ([] :: unit list) () False =
     (Some (Inl StackOverflow) :: (error + unit Intersection) option) \<and>
   traverse always_hit never_hit deep_nodes ([] :: unit list) () True =
     (Some (Inl StackOverflow) :: (error + unit Intersection) option) \<and>
   stored_at stray_leaf_nodes 0 (Leaf () 0 1) \<and>
   traverse always_hit never_hit stray_leaf_nodes ([] :: unit list) () False =
     (Some (Inl OutOfBounds) :: (error + unit Intersection) option)"
proof -
  have s: "stored_at stray_leaf_nodes 0 (Leaf () 0 1)"
    by (simp add: stray_leaf_nodes_def)
  have "traverse always_hit never_hit stray_leaf_nodes ([] :: unit list) () False =
      (Some (Inl OutOfBounds) :: (error + unit Intersection) option)"
    by (simp add: traverse_def traverse_with_def traverse_loop_step visit_def
        stray_leaf_nodes_def no_intersection_def leaf_loop.simps uint32_add_def)
  with s deep_stored
    deep_overflow [of True "never_hit :: unit \<Rightarrow> unit \<Rightarrow> unit Intersection" "[]" "()" False]
    deep_overflow [of True "never_hit :: unit \<Rightarrow> unit \<Rightarrow> unit Intersection" "[]" "()" True]
  show ?thesis
    by (simp add: traverse_def)
qed

section \<open>Child ordering\<close>

text \<open>
  C6. When \<open>traverse\<close> processes an internal node that is not pruned and the ray hits
  the boxes of both children, the child with the smaller entry distance is pushed last,
  on top of the other child, each with its own entry distance; on equal entry distances
  the left child \<open>ni + 1\<close> counts as the closer one. The next pass of the loop therefore
  pops and processes the closer child, with the farther child directly below it. The
  index of the right child is the unsigned 32-bit sum \<open>ni + rightOffset\<close>.
\<close>

theorem closer_child_pushed_last:
  assumes "ni < 2 ^ 31" and "ni < length flatTree" and "\<not> near > t intersection"
    and "rightOffset (flatTree ! ni) \<noteq> 0"
    and "ni + 1 < 2 ^ 31" and "ni + 1 < length flatTree"
    and "uint32_add ni (rightOffset (flatTree ! ni)) < length flatTree"
    and "bbox_intersect (bbox (flatTree ! (ni + 1))) ray = (True, near_left, far_left)"
    and "bbox_intersect (bbox (flatTree ! uint32_add ni (rightOffset (flatTree ! ni)))) ray =
           (True, near_right, far_right)"
    and "length todo + 2 \<le> 64"
    and "closer = (if near_right < near_left
                   then (uint32_add ni (rightOffset (flatTree ! ni)), near_right)
                   else (ni + 1, near_left))"
    and "other = (if near_right < near_left
                  then (ni + 1, near_left)
                  else (uint32_add ni (rightOffset (flatTree ! ni)), near_right))"
  shows "visit True bbox_intersect intersector flatTree build_prims ray occlusion (ni, near) todo
           intersection = Inr (Running (closer # other # todo) intersection) \<and>
         traverse_loop True bbox_intersect intersector flatTree build_prims ray occlusion
           ((ni, near) # todo) intersection =
         (case visit True bbox_intersect intersector flatTree build_prims ray occlusion closer
                 (other # todo) intersection of
            Inl e \<Rightarrow> Some (Inl e)
          | Inr (Done result) \<Rightarrow> Some (Inr result)
          | Inr (Running todo' best) \<Rightarrow>
              traverse_loop True bbox_intersect intersector flatTree build_prims ray occlusion
                todo' best)"
proof -
  from assms(3) have np: "\<not> (True \<and> near > t intersection)"
    by simp
  have v: "visit True bbox_intersect intersector flatTree build_prims ray occlusion (ni, near) todo
      intersection = Inr (Running (closer # other # todo) intersection)"
    unfolding visit_inner [where bi = bbox_intersect and ray = ray,
        OF assms(1,2) np refl assms(4,5,6) refl assms(7,8,9)]
    using assms(10,11,12) by simp
  then show ?thesis
    by (simp add: traverse_loop_step)
qed

theorem closer_child_pushed_last_witness:
  "visit True interval_intersect point_intersector scene_nodes scene_prims 0 False
     (0, Fin (- 9999999)) [] no_intersection =
     Inr (Running [(1, Fin 1), (2, Fin 4)] no_intersection)"
proof -
  have "visit True interval_intersect point_intersector scene_nodes scene_prims 0 False
     (0, Fin (- 9999999)) [] (no_intersection :: real Intersection) =
     Inr (Running ((1, Fin 1) # (2, Fin 4) # []) no_intersection) \<and>
     traverse_loop True interval_intersect point_intersector scene_nodes scene_prims 0 False
       ((0, Fin (- 9999999)) # []) (no_intersection :: real Intersection) =
     (case visit True interval_intersect point_intersector scene_nodes scene_prims 0 False
             (1, Fin 1) ((2, Fin 4) # []) no_intersection of
        Inl e \<Rightarrow> Some (Inl e)
      | Inr (Done result) \<Rightarrow> Some (Inr result)
      | Inr (Running todo' best) \<Rightarrow>
          traverse_loop True interval_intersect point_intersector scene_nodes scene_prims 0
            False todo' best)"
    by (rule closer_child_pushed_last [where near_left = "Fin 1" and far_left = "Fin 3"
          and near_right = "Fin 4" and far_right = "Fin 10"])
      (simp_all add: scene_nodes_def interval_intersect_def no_intersection_def uint32_add_def)
  then show ?thesis
    by simp
qed

section \<open>Rays that miss the root box\<close>

text \<open>
  C7, as amended. For a hierarchy of depth at most 63, stored at indices below \<open>2^31\<close>,
  whose leaf ranges lie inside the primitive array and whose boxes enclose the
  primitives of their subtrees (the intersector reports a hit on a primitive only when
  the box test reports a hit for every box around it), \<open>traverse\<close> returns an invalid
  Intersection for every ray that the box test of the root reports as a miss, in both
  modes.
\<close>

theorem miss_root_box_invalid:
  assumes "stored_at flatTree 0 tr" and "depth tr < 64" and "ranges_ok build_prims tr"
    and "encloses bbox_intersect intersector build_prims ray tr"
    and "\<not> fst (bbox_intersect (bbox (flatTree ! 0)) ray)"
  shows "\<exists>r. traverse bbox_intersect intersector flatTree build_prims ray occlusion =
             Some (Inr r) \<and>
           \<not> valid r"
proof -
  from stored_at_node [OF assms(1)] assms(5) obtain n f where
    "bbox_intersect (box_of tr) ray = (False, n, f)"
    by (cases "bbox_intersect (box_of tr) ray") auto
  with assms(4) have miss: "\<forall>j\<in>set (prim_indices tr). \<not> valid (intersector (build_prims ! j) ray)"
    by (rule encloses_miss)
  have "\<exists>x. explore True bbox_intersect intersector build_prims ray occlusion tr
      (Fin (- 9999999)) no_intersection = Inr x"
    using assms(3) by (rule explore_Inr)
  then obtain x where
    x: "explore True bbox_intersect intersector build_prims ray occlusion tr
      (Fin (- 9999999)) no_intersection = Inr x"
    by blast
  from explore_sound [OF assms(3) x] miss have "scan_value x = no_intersection"
    by auto
  then have "\<not> valid (scan_value x)"
    by (simp add: valid_def no_intersection_def)
  with x show ?thesis
    by (simp add: traverse_def traverse_explore [OF assms(1,2)] finish_Inr)
qed

theorem miss_root_box_invalid_witness:
  "stored_at scene_nodes 0 scene_tree \<and> depth scene_tree < 64 \<and>
   ranges_ok scene_prims scene_tree \<and>
   encloses interval_intersect point_intersector scene_prims 11 scene_tree \<and>
   \<not> fst (interval_intersect (bbox (scene_nodes ! 0)) 11) \<and>
   (\<exists>r. traverse interval_intersect point_intersector scene_nodes scene_prims 11 True =
        Some (Inr r) \<and>
      \<not> valid r)"
proof -
  have e: "encloses interval_intersect point_intersector scene_prims 11 scene_tree"
    by (simp add: scene_tree_def scene_prims_def box_encloses_def interval_intersect_def
        point_intersector_def valid_def no_intersection_def upt_rec)
  have m: "\<not> fst (interval_intersect (bbox (scene_nodes ! 0)) 11)"
    by (simp add: scene_nodes_def interval_intersect_def)
  from miss_root_box_invalid [OF scene_stored scene_depth scene_ranges e m]
    scene_stored scene_depth scene_ranges e m
  show ?thesis
    by simp
qed

text \<open>
  C7, as stated, fails for a well-formed hierarchy that is deeper than the stack. The ray
  misses the box of the root and hits every other box; below the root hangs a chain of
  63 internal nodes; no primitive is hit. The root box is never tested, the traversal
  descends the chain and writes \<open>todo[64]\<close>, in both modes, and returns no Intersection.
\<close>

theorem blind_root_overflows:
  "stored_at blind_root_nodes 0 blind_root_tree \<and>
   ranges_ok ([] :: unit list) blind_root_tree \<and>
   encloses flag_intersect (never_hit :: unit \<Rightarrow> unit \<Rightarrow> unit Intersection) [] () blind_root_tree \<and>
   \<not> fst (flag_intersect (bbox (blind_root_nodes ! 0)) ()) \<and>
   traverse flag_intersect never_hit blind_root_nodes ([] :: unit list) () False =
     (Some (Inl StackOverflow) :: (error + unit Intersection) option) \<and>
   traverse flag_intersect never_hit blind_root_nodes ([] :: unit list) () True =
     (Some (Inl StackOverflow) :: (error + unit Intersection) option)"
proof -
  have r: "ranges_ok ([] :: unit list) blind_root_tree"
    by (simp add: ranges_ok_def blind_root_tree_def prim_indices_chain)
  have e: "encloses flag_intersect (never_hit :: unit \<Rightarrow> unit \<Rightarrow> unit Intersection) [] ()
      blind_root_tree"
    by (simp add: blind_root_tree_def encloses_chain box_encloses_def prim_indices_chain)
  have m: "\<not> fst (flag_intersect (bbox (blind_root_nodes ! 0)) ())"
    by (simp add: blind_root_nodes_def blind_root_tree_def flag_intersect_def)
  from blind_root_stored r e m
    blind_root_overflow [of True "never_hit :: unit \<Rightarrow> unit \<Rightarrow> unit Intersection" "[]" "()" False]
    blind_root_overflow [of True "never_hit :: unit \<Rightarrow> unit \<Rightarrow> unit Intersection" "[]" "()" True]
  show ?thesis
    by (simp add: traverse_def)
qed

section \<open>Determinism\<close>

text \<open>
  C8. \<open>traverse\<close> is a function of the ray, the occlusion flag, the node array, the
  primitive array and the answers of the intersector and of the box test for this ray on
  the primitives and boxes of these arrays: two calls that agree on these have the same
  outcome, the same value returned or the same undefined behaviour or both without end.
  The arrays are read-only arguments (the C++ holds the BVH by const reference), so no
  call can change what a later call sees.
\<close>

theorem traverse_deterministic:
  assumes "\<forall>obj\<in>set build_prims. intersector obj ray = intersector' obj ray"
    and "\<forall>node\<in>set flatTree. bbox_intersect (bbox node) ray = bbox_intersect' (bbox node) ray"
  shows "traverse bbox_intersect intersector flatTree build_prims ray occlusion =
         traverse bbox_intersect' intersector' flatTree build_prims ray occlusion"
proof -
  from assms(2) have B: "\<forall>node\<in>set flatTree.
      fst (bbox_intersect (bbox node) ray) = fst (bbox_intersect' (bbox node) ray) \<and>
      fst (snd (bbox_intersect (bbox node) ray)) = fst (snd (bbox_intersect' (bbox node) ray))"
    by simp
  have "visit True bbox_intersect intersector flatTree build_prims ray occlusion entry todo best =
      visit True bbox_intersect' intersector' flatTree build_prims ray occlusion entry todo best"
    for entry todo best
    using assms(1) B by (rule visit_cong)
  then show ?thesis
    unfolding traverse_def traverse_with_def by (rule traverse_loop_cong)
qed

theorem traverse_deterministic_witness:
  "list_all (\<lambda>obj. point_intersector obj 0 = nearby_point_intersector obj 0) scene_prims \<and>
   traverse interval_intersect point_intersector scene_nodes scene_prims 0 False =
   traverse interval_intersect nearby_point_intersector scene_nodes scene_prims 0 False"
proof -
  have h1: "\<forall>obj\<in>set scene_prims. point_intersector obj 0 = nearby_point_intersector obj 0"
    by (simp add: scene_prims_def nearby_point_intersector_def)
  have h2: "\<forall>node\<in>set scene_nodes.
      interval_intersect (bbox node) 0 = interval_intersect (bbox node) 0"
    by simp
  from h1 h2 have "traverse interval_intersect point_intersector scene_nodes scene_prims 0 False =
      traverse interval_intersect nearby_point_intersector scene_nodes scene_prims 0 False"
    by (rule traverse_deterministic)
  with h1 show ?thesis
    by (simp add: list_all_iff)
qed

section \<open>The root box\<close>

text \<open>
  C9, as amended. Provided that index 0 is the right child of no internal node, that is
  the unsigned 32-bit sum \<open>ni + rightOffset\<close> is 0 for no internal node \<open>ni\<close> of the
  array (in a well-formed array the offsets point forward, so it is not),
  \<open>traverse\<close> never tests the ray against the bounding box of the root: replacing that
  box by any other leaves the outcome unchanged. The root is pushed with the entry
  distance \<open>-9999999\<close> and is never pruned, so when the root is a leaf the result is the
  outcome of the leaf loop over the root's primitives, whatever the box test says.
\<close>

theorem root_box_never_tested:
  "((\<forall>ni<length flatTree. rightOffset (flatTree ! ni) \<noteq> 0 \<longrightarrow>
       uint32_add ni (rightOffset (flatTree ! ni)) \<noteq> 0) \<longrightarrow>
    traverse bbox_intersect intersector (flatTree[0 := (flatTree ! 0)\<lparr>bbox := b'\<rparr>]) build_prims
      ray occlusion =
    traverse bbox_intersect intersector flatTree build_prims ray occlusion) \<and>
   (flatTree \<noteq> [] \<and> rightOffset (flatTree ! 0) = 0 \<longrightarrow>
    traverse bbox_intersect intersector flatTree build_prims ray occlusion =
      (case leaf_loop intersector build_prims ray occlusion (start (flatTree ! 0))
              (nPrims (flatTree ! 0)) 0 (no_intersection :: 'a Intersection) of
         Inl e \<Rightarrow> Some (Inl e)
       | Inr (Returned current) \<Rightarrow> Some (Inr current)
       | Inr (Scanned best) \<Rightarrow> Some (Inr best)))"
proof (intro conjI impI)
  assume H: "\<forall>ni<length flatTree. rightOffset (flatTree ! ni) \<noteq> 0 \<longrightarrow>
    uint32_add ni (rightOffset (flatTree ! ni)) \<noteq> 0"
  show "traverse bbox_intersect intersector (flatTree[0 := (flatTree ! 0)\<lparr>bbox := b'\<rparr>])
      build_prims ray occlusion =
    traverse bbox_intersect intersector flatTree build_prims ray occlusion"
    unfolding traverse_def traverse_with_def
    by (rule traverse_loop_cong) (rule visit_root_box [OF H])
next
  assume leaf: "flatTree \<noteq> [] \<and> rightOffset (flatTree ! 0) = 0"
  then have ni: "(0::nat) < 2 ^ 31" "0 < length flatTree"
    by simp_all
  have np: "\<not> (True \<and> Fin (- 9999999) > t (no_intersection :: 'a Intersection))"
    by (simp add: no_intersection_def)
  show "traverse bbox_intersect intersector flatTree build_prims ray occlusion =
      (case leaf_loop intersector build_prims ray occlusion (start (flatTree ! 0))
              (nPrims (flatTree ! 0)) 0 (no_intersection :: 'a Intersection) of
         Inl e \<Rightarrow> Some (Inl e)
       | Inr (Returned current) \<Rightarrow> Some (Inr current)
       | Inr (Scanned best) \<Rightarrow> Some (Inr best))"
    unfolding traverse_def traverse_with_def traverse_loop_step
      visit_leaf [OF ni np conjunct2 [OF leaf]]
    by (simp split: sum.splits scan.splits)
qed

theorem root_box_never_tested_witness:
  "length scene_nodes = 3 \<and> uint32_add 0 (rightOffset (scene_nodes ! 0)) \<noteq> 0 \<and>
   rightOffset (scene_nodes ! 1) = 0 \<and> rightOffset (scene_nodes ! 2) = 0 \<and>
   traverse interval_intersect point_intersector
     (scene_nodes[0 := (scene_nodes ! 0)\<lparr>bbox := (20, 30)\<rparr>]) scene_prims 0 False =
   traverse interval_intersect point_intersector scene_nodes scene_prims 0 False \<and>
   single_leaf_nodes \<noteq> [] \<and> rightOffset (single_leaf_nodes ! 0) = 0 \<and>
   \<not> fst (interval_intersect (bbox (single_leaf_nodes ! 0)) 4) \<and>
   traverse interval_intersect point_intersector single_leaf_nodes scene_prims 4 False =
     Some (Inr \<lparr>t = Fin 1, object = Some 5\<rparr>)"
proof -
  have H: "\<forall>ni<length scene_nodes. rightOffset (scene_nodes ! ni) \<noteq> 0 \<longrightarrow>
      uint32_add ni (rightOffset (scene_nodes ! ni)) \<noteq> 0"
    by (simp add: scene_nodes_def uint32_add_def less_Suc_eq numeral_3_eq_3)
  have f: "length scene_nodes = 3 \<and> uint32_add 0 (rightOffset (scene_nodes ! 0)) \<noteq> 0 \<and>
      rightOffset (scene_nodes ! 1) = 0 \<and> rightOffset (scene_nodes ! 2) = 0"
    by (simp add: scene_nodes_def uint32_add_def)
  from root_box_never_tested [where bbox_intersect = interval_intersect
      and intersector = point_intersector and flatTree = scene_nodes
      and build_prims = scene_prims and ray = 0 and occlusion = False and b' = "(20, 30)"]
    H
  have a: "traverse interval_intersect point_intersector
       (scene_nodes[0 := (scene_nodes ! 0)\<lparr>bbox := (20, 30)\<rparr>]) scene_prims 0 False =
     traverse interval_intersect point_intersector scene_nodes scene_prims 0 False"
    by blast
  from root_box_never_tested [where bbox_intersect = interval_intersect
      and intersector = point_intersector and flatTree = single_leaf_nodes
      and build_prims = scene_prims and ray = 4 and occlusion = False]
  have b: "single_leaf_nodes \<noteq> [] \<and> rightOffset (single_leaf_nodes ! 0) = 0 \<and>
     \<not> fst (interval_intersect (bbox (single_leaf_nodes ! 0)) 4) \<and>
     traverse interval_intersect point_intersector single_leaf_nodes scene_prims 4 False =
       Some (Inr \<lparr>t = Fin 1, object = Some 5\<rparr>)"
    by (simp add: single_leaf_nodes_def scene_prims_def interval_intersect_def
        point_intersector_def leaf_loop.simps valid_def closest_def no_intersection_def
        uint32_add_def)
  from f a b show ?thesis
    by blast
qed

text \<open>
  C9, as stated, fails on a node array in which an offset wraps around. Node 1 has the
  offset \<open>4294967295\<close>, so its right child is node \<open>1 + 4294967295 = 0\<close> in unsigned
  32-bit arithmetic: the root is the child of an internal node and its box is tested.
  With a root box that the ray misses the traversal returns the hit at distance 1; with
  a root box that the ray hits, everything else unchanged, the traversal goes round the
  cycle \<open>0, 1, 0, 1, ...\<close> until it writes \<open>todo[64]\<close>.
\<close>

theorem wrapped_offset_tests_root_box:
  "traverse flag_intersect distance_intersector wrap_nodes [1] () False =
     Some (Inr \<lparr>t = Fin 1, object = Some 1\<rparr>) \<and>
   traverse flag_intersect distance_intersector
     (wrap_nodes[0 := (wrap_nodes ! 0)\<lparr>bbox := True\<rparr>]) [1] () False =
     Some (Inl StackOverflow)"
  using wrap_miss [of "()"] wrap_hit [of "()"] by simp

section \<open>Exit distances\<close>

text \<open>
  C10. The result of \<open>traverse\<close> does not depend on the exit distances of the box test:
  two box tests that report the same hit flags and the same entry distances for the ray
  give identical results.
\<close>

theorem exit_distances_never_read:
  assumes "\<forall>b. fst (bbox_intersect b ray) = fst (bbox_intersect' b ray) \<and>
             fst (snd (bbox_intersect b ray)) = fst (snd (bbox_intersect' b ray))"
  shows "traverse bbox_intersect intersector flatTree build_prims ray occlusion =
         traverse bbox_intersect' intersector flatTree build_prims ray occlusion"
proof -
  from assms have B: "\<forall>node\<in>set flatTree.
      fst (bbox_intersect (bbox node) ray) = fst (bbox_intersect' (bbox node) ray) \<and>
      fst (snd (bbox_intersect (bbox node) ray)) = fst (snd (bbox_intersect' (bbox node) ray))"
    by simp
  have I: "\<forall>obj\<in>set build_prims. intersector obj ray = intersector obj ray"
    by simp
  have "visit True bbox_intersect intersector flatTree build_prims ray occlusion entry todo best =
      visit True bbox_intersect' intersector flatTree build_prims ray occlusion entry todo best"
    for entry todo best
    using I B by (rule visit_cong)
  then show ?thesis
    unfolding traverse_def traverse_with_def by (rule traverse_loop_cong)
qed

theorem exit_distances_never_read_witness:
  "(\<forall>b. fst (interval_intersect b 0) = fst (interval_entry_only b 0) \<and>
        fst (snd (interval_intersect b 0)) = fst (snd (interval_entry_only b 0))) \<and>
   traverse interval_intersect point_intersector scene_nodes scene_prims 0 False =
   traverse interval_entry_only point_intersector scene_nodes scene_prims 0 False"
proof -
  have h: "\<forall>b. fst (interval_intersect b 0) = fst (interval_entry_only b 0) \<and>
      fst (snd (interval_intersect b 0)) = fst (snd (interval_entry_only b 0))"
    by (simp add: interval_intersect_def interval_entry_only_def)
  from h have "traverse interval_intersect point_intersector scene_nodes scene_prims 0 False =
      traverse interval_entry_only point_intersector scene_nodes scene_prims 0 False"
    by (rule exit_distances_never_read)
  with h show ?thesis
    by simp
qed

end
